theory Spec2Isabelle
  imports Complex_Main "HOL-Library.Signed_Division" "HOL-Library.Multiset"
begin

section \<open>Errors\<close>

text \<open>
  The JavaScript sources signal every failure with \<^verbatim>\<open>throw new Error(message)\<close>. Each
  throw site is one constructor below, named after the error kind the specification
  gives it; the message text is not modelled. Thrown errors become \<open>Inl\<close> values.

  \<^item> \<open>ZeroDenominator\<close>: 'Zero denominator in fraction reduction.'
  \<^item> \<open>InvalidBase\<close>: 'Invalid base ... Supported bases are integers between 2 and 36.'
  \<^item> \<open>EmptyValue\<close>: 'Empty value string', 'Invalid numeric string: only sign found.' and
    'Invalid numeric string after removing separators.'
  \<^item> \<open>InvalidCharacter\<close>: 'Invalid character ... for base ...'
  \<^item> \<open>InvalidK\<close>: 'k must be positive integer.' and 'Invalid keys.k: ...'
  \<^item> \<open>InsufficientPoints\<close>: 'Need at least k=... points' and 'Not enough data points: ...'
  \<^item> \<open>DuplicateX\<close>: 'Duplicate x value found among selected points' and
    'Duplicate x values among selected points'
  \<^item> \<open>DegenerateDenominator\<close>: 'Final denominator is zero (unexpected).'
  \<^item> \<open>MissingK\<close>: 'Missing "keys.k" in JSON input.'
  \<^item> \<open>InvalidPointKey\<close>: 'Invalid point key ...'
  \<^item> \<open>InvalidPointEntry\<close>: 'Invalid point entry for key ...'
  \<^item> \<open>InvalidValueType\<close>: 'Invalid type for 'value' at key ...'
\<close>

datatype error =
    ZeroDenominator
  | InvalidBase
  | EmptyValue
  | InvalidCharacter
  | InvalidK
  | InsufficientPoints
  | DuplicateX
  | DegenerateDenominator
  | MissingK
  | InvalidPointKey
  | InvalidPointEntry
  | InvalidValueType

section \<open>Fraction reduction\<close>

text \<open>
  BigInt values are unbounded integers: \<^typ>\<open>int\<close>. On BigInt, JavaScript's \<^verbatim>\<open>/\<close> and
  \<^verbatim>\<open>%\<close> truncate towards zero, which is \<open>sdiv\<close> and \<open>smod\<close> on \<^typ>\<open>int\<close>.

  \<^verbatim>\<open>
  function bigIntGcd(a, b) {
      a = a < 0n ? -a : a;
      b = b < 0n ? -b : b;
      while (b !== 0n) { const t = a % b; a = b; b = t; }
      return a;
  }
  \<close>
\<close>

function bigIntGcd_loop :: "int \<Rightarrow> int \<Rightarrow> int" where
  "bigIntGcd_loop a b = (if b \<noteq> 0 then bigIntGcd_loop b (a smod b) else a)"
  by pat_completeness auto
termination
proof (relation "measure (\<lambda>(a, b). nat \<bar>b\<bar>)")
  show "wf (measure (\<lambda>(a, b). nat \<bar>b\<bar>))"
    by simp
next
  fix a b :: int
  assume "b \<noteq> 0"
  then have "\<bar>a smod b\<bar> < \<bar>b\<bar>"
    by (simp add: signed_modulo_int_def abs_mult abs_sgn_eq)
  then show "((b, a smod b), (a, b)) \<in> measure (\<lambda>(a, b). nat \<bar>b\<bar>)"
    by simp
qed

definition bigIntGcd :: "int \<Rightarrow> int \<Rightarrow> int" where
  "bigIntGcd a b =
     (let a = (if a < 0 then - a else a);
          b = (if b < 0 then - b else b)
      in bigIntGcd_loop a b)"

text \<open>
  \<^verbatim>\<open>
  function reduceFraction(num, den) {
      if (den === 0n) throw new Error('Zero denominator in fraction reduction.');
      if (den < 0n) { num = -num; den = -den; }
      const g = bigIntGcd(num < 0n ? -num : num, den);
      return [num / g, den / g];
  }
  \<close>
\<close>

definition reduceFraction :: "int \<Rightarrow> int \<Rightarrow> error + (int \<times> int)" where
  "reduceFraction num den =
     (if den = 0 then Inl ZeroDenominator
      else
        let (num, den) = (if den < 0 then (- num, - den) else (num, den));
            g = bigIntGcd (if num < 0 then - num else num) den
        in Inr (num sdiv g, den sdiv g))"

section \<open>Strings and numbers of the host language\<close>

text \<open>
  A JavaScript string is modelled as the list of its Unicode code points, which is what
  \<^verbatim>\<open>for (const ch of s)\<close> iterates over. The characters the parser tests by position
  (\<^verbatim>\<open>s[0]\<close>, \<^verbatim>\<open>slice(1)\<close>, \<^verbatim>\<open>replace(/_/g, '')\<close>, \<^verbatim>\<open>trim()\<close>) all lie in the Basic
  Multilingual Plane, where code points and UTF-16 code units agree. \<open>lit\<close> turns an
  ASCII literal into such a string.
\<close>

type_synonym codepoint = nat
type_synonym jsstring = "codepoint list"

definition lit :: "string \<Rightarrow> jsstring" where
  "lit s = map of_char s"

text \<open>
  \<^verbatim>\<open>String.prototype.trim\<close> removes, at both ends, the code points of the language's
  WhiteSpace and LineTerminator productions.
\<close>

definition isWhiteSpace :: "codepoint \<Rightarrow> bool" where
  "isWhiteSpace c \<longleftrightarrow>
     c \<in> set [0x9, 0xA, 0xB, 0xC, 0xD, 0x20, 0xA0, 0x1680, 0x2028, 0x2029, 0x202F, 0x205F,
              0x3000, 0xFEFF]
     \<or> (0x2000 \<le> c \<and> c \<le> 0x200A)"

definition trim :: "jsstring \<Rightarrow> jsstring" where
  "trim s = rev (dropWhile isWhiteSpace (rev (dropWhile isWhiteSpace s)))"

text \<open>
  \<^verbatim>\<open>ch.toLowerCase()\<close> of a one-character string. The result is a string: U+0130 becomes
  two characters. Only the mappings that reach or leave ASCII are written out, since the
  result is used for nothing but a lookup in \<open>DIGIT_MAP\<close>, whose keys are ASCII: besides
  \<open>A\<close>-\<open>Z\<close>, the Kelvin sign U+212A is the one code point whose lower case is an ASCII
  letter. Every other code point is left as it is.
\<close>

definition toLowerCase :: "codepoint \<Rightarrow> jsstring" where
  "toLowerCase ch =
     (if 0x41 \<le> ch \<and> ch \<le> 0x5A then [ch + 0x20]
      else if ch = 0x212A then [0x6B]
      else if ch = 0x130 then [0x69, 0x307]
      else [ch])"

text \<open>
  A JavaScript number, as far as \<^verbatim>\<open>Number.isInteger\<close> and comparison tell: an integer, or
  anything else (\<^verbatim>\<open>NaN\<close>, an infinity, a fraction). This is the value of
  \<^verbatim>\<open>Number(base)\<close>, \<^verbatim>\<open>Number(data.keys.k)\<close> and \<^verbatim>\<open>parseInt(entry.base, 10)\<close>.
\<close>

datatype number = Integer int | NonInteger

section \<open>Base-N integer parser\<close>

text \<open>
  \<^verbatim>\<open>
  const DIGITS = '0123456789abcdefghijklmnopqrstuvwxyz';
  const DIGIT_MAP = new Map(Array.from(DIGITS).map((c, i) => [c, i]));
  \<close>
\<close>

definition DIGITS :: jsstring where
  "DIGITS = lit ''0123456789abcdefghijklmnopqrstuvwxyz''"

definition DIGIT_MAP :: "jsstring \<rightharpoonup> nat" where
  "DIGIT_MAP = map_of (zip (map (\<lambda>c. [c]) DIGITS) [0..<length DIGITS])"

text \<open>
  The digit loop of \<open>parseBigIntFromString\<close>:
  \<^verbatim>\<open>
  for (const ch of s) {
      const cl = ch.toLowerCase();
      const digit = DIGIT_MAP.has(cl) ? DIGIT_MAP.get(cl) : -1;
      if (digit === -1 || digit >= base) throw new Error(`Invalid character ...`);
      result = result * baseBig + BigInt(digit);
  }
  \<close>
\<close>

fun digits_loop :: "int \<Rightarrow> jsstring \<Rightarrow> int \<Rightarrow> error + int" where
  "digits_loop base [] result = Inr result"
| "digits_loop base (ch # s) result =
     (case DIGIT_MAP (toLowerCase ch) of
        None \<Rightarrow> Inl InvalidCharacter
      | Some digit \<Rightarrow>
          if int digit \<ge> base then Inl InvalidCharacter
          else digits_loop base s (result * base + int digit))"

text \<open>
  \<^verbatim>\<open>
  function parseBigIntFromString(valueString, base) {
      if (typeof valueString !== 'string') throw new Error('Value must be a string.');
      base = Number(base);
      if (!Number.isInteger(base) || base < 2 || base > 36) throw new Error(`Invalid base ...`);
      let s = valueString.trim();
      if (s.length === 0) throw new Error('Empty value string');
      let sign = 1n;
      if (s[0] === '+' || s[0] === '-') {
          if (s[0] === '-') sign = -1n;
          s = s.slice(1);
          if (s.length === 0) throw new Error('Invalid numeric string: only sign found.');
      }
      s = s.replace(/_/g, '');
      if (s.length === 0) throw new Error('Invalid numeric string after removing separators.');
      let result = 0n;
      const baseBig = BigInt(base);
      for (const ch of s) { ... }
      return sign * result;
  }
  \<close>
  The argument is a string by its type, so the first check has no branch here.
\<close>

definition parseBigIntFromString :: "jsstring \<Rightarrow> number \<Rightarrow> error + int" where
  "parseBigIntFromString valueString base =
     (case base of
        NonInteger \<Rightarrow> Inl InvalidBase
      | Integer base \<Rightarrow>
          if base < 2 \<or> base > 36 then Inl InvalidBase
          else
            let s = trim valueString in
            if length s = 0 then Inl EmptyValue
            else
              let signed = (hd s = 0x2B \<or> hd s = 0x2D);
                  sign = (if signed \<and> hd s = 0x2D then - 1 else 1);
                  s = (if signed then tl s else s)
              in
              if signed \<and> length s = 0 then Inl EmptyValue
              else
                let s = filter (\<lambda>c. c \<noteq> 0x5F) s in
                if length s = 0 then Inl EmptyValue
                else
                  (case digits_loop base s 0 of
                     Inl e \<Rightarrow> Inl e
                   | Inr result \<Rightarrow> Inr (sign * result)))"

section \<open>Exact Lagrange evaluator\<close>

text \<open>
  A point is the object \<^verbatim>\<open>{ x, y }\<close> of two BigInts; the fields are named \<open>px\<close> and
  \<open>py\<close> here.
\<close>

record point =
  px :: int
  py :: int

text \<open>
  The inner loop of \<open>computeConstantTermFromSelected\<close>, over the indices \<open>i\<close> still
  to visit:
  \<^verbatim>\<open>
  for (let i = 0; i < k; i++) {
      if (i === j) continue;
      const xi = selectedPoints[i].x;
      if (xi === xj) throw new Error(`Duplicate x value found among selected points ...`);
      numerator *= (0n - xi);
      denominator *= (xj - xi);
  }
  \<close>
\<close>

fun basis_loop :: "point list \<Rightarrow> nat \<Rightarrow> nat list \<Rightarrow> int \<Rightarrow> int \<Rightarrow> error + (int \<times> int)" where
  "basis_loop selectedPoints j [] numerator denominator = Inr (numerator, denominator)"
| "basis_loop selectedPoints j (i # is) numerator denominator =
     (if i = j then basis_loop selectedPoints j is numerator denominator
      else
        let xj = px (selectedPoints ! j);
            xi = px (selectedPoints ! i)
        in if xi = xj then Inl DuplicateX
           else basis_loop selectedPoints j is (numerator * (0 - xi)) (denominator * (xj - xi)))"

text \<open>
  The outer loop, over the indices \<open>j\<close> still to visit, with the running total:
  \<^verbatim>\<open>
  for (let j = 0; j < k; j++) {
      const xj = selectedPoints[j].x;
      const yj = selectedPoints[j].y;
      let numerator = 1n;
      let denominator = 1n;
      for (let i = 0; i < k; i++) { ... }
      let termNum = yj * numerator;
      let termDen = denominator;
      [termNum, termDen] = reduceFraction(termNum, termDen);
      const newNum = totalNum * termDen + termNum * totalDen;
      const newDen = totalDen * termDen;
      [totalNum, totalDen] = reduceFraction(newNum, newDen);
  }
  \<close>
\<close>

fun terms_loop :: "point list \<Rightarrow> nat \<Rightarrow> nat list \<Rightarrow> int \<Rightarrow> int \<Rightarrow> error + (int \<times> int)" where
  "terms_loop selectedPoints k [] totalNum totalDen = Inr (totalNum, totalDen)"
| "terms_loop selectedPoints k (j # js) totalNum totalDen =
     (let yj = py (selectedPoints ! j) in
      case basis_loop selectedPoints j [0..<k] 1 1 of
        Inl e \<Rightarrow> Inl e
      | Inr (numerator, denominator) \<Rightarrow>
          (case reduceFraction (yj * numerator) denominator of
             Inl e \<Rightarrow> Inl e
           | Inr (termNum, termDen) \<Rightarrow>
               (case reduceFraction (totalNum * termDen + termNum * totalDen) (totalDen * termDen) of
                  Inl e \<Rightarrow> Inl e
                | Inr (newNum, newDen) \<Rightarrow> terms_loop selectedPoints k js newNum newDen)))"

text \<open>
  \<^verbatim>\<open>
  function computeConstantTermFromSelected(selectedPoints, k) {
      if (!Array.isArray(selectedPoints)) throw new Error('selectedPoints must be an array.');
      if (!Number.isInteger(k) || k <= 0) throw new Error('k must be positive integer.');
      if (selectedPoints.length < k) throw new Error(`Need at least k=... points ...`);
      let totalNum = 0n;
      let totalDen = 1n;
      for (let j = 0; j < k; j++) { ... }
      if (totalDen === 0n) throw new Error('Final denominator is zero (unexpected).');
      return reduceFraction(totalNum, totalDen);
  }
  \<close>
  The first argument is an array by its type.
\<close>

definition computeConstantTermFromSelected :: "point list \<Rightarrow> number \<Rightarrow> error + (int \<times> int)" where
  "computeConstantTermFromSelected selectedPoints k =
     (case k of
        NonInteger \<Rightarrow> Inl InvalidK
      | Integer k \<Rightarrow>
          if k \<le> 0 then Inl InvalidK
          else if int (length selectedPoints) < k then Inl InsufficientPoints
          else
            (case terms_loop selectedPoints (nat k) [0..<nat k] 0 1 of
               Inl e \<Rightarrow> Inl e
             | Inr (totalNum, totalDen) \<Rightarrow>
                 if totalDen = 0 then Inl DegenerateDenominator
                 else reduceFraction totalNum totalDen))"

section \<open>Point set builder\<close>

text \<open>
  The builders work on the object \<^verbatim>\<open>JSON.parse\<close> returns. Reading the text and parsing
  the JSON are the host's; the model starts at the parsed object, with the host's
  coercions applied:
  \<^item> \<open>keys_k\<close> is \<open>None\<close> when \<^verbatim>\<open>!data.keys || typeof data.keys.k === 'undefined'\<close>, and
    otherwise \<^verbatim>\<open>Number(data.keys.k)\<close>;
  \<^item> \<open>members\<close> lists the object's members in the order of \<^verbatim>\<open>Object.keys\<close>;
  \<^item> a member's value is \<open>None\<close> when it is not an object (\<^verbatim>\<open>!entry\<close>, or a primitive or
    an array, none of which has a \<^verbatim>\<open>base\<close> or a \<^verbatim>\<open>value\<close>), and otherwise an entry;
  \<^item> \<open>entry_base\<close> is \<open>None\<close> when \<^verbatim>\<open>typeof entry.base === 'undefined'\<close>, and otherwise
    \<^verbatim>\<open>parseInt(entry.base, 10)\<close> (\<^verbatim>\<open>NaN\<close> is \<open>NonInteger\<close>);
  \<^item> \<open>entry_value\<close> is \<^verbatim>\<open>entry.value\<close> by its \<^verbatim>\<open>typeof\<close>. A number carries the text
    \<^verbatim>\<open>String\<close> gives for it (the host's conversion of a double). \<^verbatim>\<open>JSON.parse\<close> produces
    no bigint, so that type has no constructor.
\<close>

datatype jsvalue =
    Undefined
  | Null
  | Boolean bool
  | Number jsstring
  | String jsstring
  | Object

record entry =
  entry_base :: "number option"
  entry_value :: jsvalue

record input_record =
  keys_k :: "number option"
  members :: "(jsstring \<times> entry option) list"

text \<open>
  The pattern \<^verbatim>\<open>/^-?\d+$/\<close> and \<^verbatim>\<open>BigInt(rawKey)\<close>, which is only applied to keys that
  match it.
\<close>

definition isPointKey :: "jsstring \<Rightarrow> bool" where
  "isPointKey rawKey =
     (let ds = (if rawKey \<noteq> [] \<and> hd rawKey = 0x2D then tl rawKey else rawKey)
      in ds \<noteq> [] \<and> list_all (\<lambda>c. 0x30 \<le> c \<and> c \<le> 0x39) ds)"

definition BigInt :: "jsstring \<Rightarrow> int" where
  "BigInt rawKey =
     (if rawKey \<noteq> [] \<and> hd rawKey = 0x2D
      then - foldl (\<lambda>r c. r * 10 + int (c - 0x30)) 0 (tl rawKey)
      else foldl (\<lambda>r c. r * 10 + int (c - 0x30)) 0 rawKey)"

text \<open>
  The member loop of \<open>findConstantTermFromString\<close>, with the points pushed so far:
  \<^verbatim>\<open>
  for (const rawKey of Object.keys(parsed)) {
      if (rawKey === 'keys') continue;
      if (!/^-?\d+$/.test(rawKey)) throw new Error(`Invalid point key ...`);
      const x = BigInt(rawKey);
      const entry = parsed[rawKey];
      if (!entry || typeof entry.base === 'undefined') throw new Error(`Invalid point entry ...`);
      const rawValue = entry.value;
      let valueStr;
      if (typeof rawValue === 'string') valueStr = rawValue;
      else if (typeof rawValue === 'number' || typeof rawValue === 'bigint'
               || typeof rawValue === 'boolean') valueStr = String(rawValue);
      else throw new Error(`Invalid type for 'value' at key ...`);
      const y = parseBigIntFromString(valueStr, parseInt(entry.base, 10));
      pts.push({ x, y });
  }
  \<close>
\<close>

definition valueStr_of :: "jsvalue \<Rightarrow> error + jsstring" where
  "valueStr_of rawValue =
     (case rawValue of
        String s \<Rightarrow> Inr s
      | Number s \<Rightarrow> Inr s
      | Boolean b \<Rightarrow> Inr (if b then lit ''true'' else lit ''false'')
      | _ \<Rightarrow> Inl InvalidValueType)"

fun points_loop_String :: "(jsstring \<times> entry option) list \<Rightarrow> point list \<Rightarrow> error + point list" where
  "points_loop_String [] pts = Inr pts"
| "points_loop_String ((rawKey, entry) # rest) pts =
     (if rawKey = lit ''keys'' then points_loop_String rest pts
      else if \<not> isPointKey rawKey then Inl InvalidPointKey
      else
        (case entry of
           None \<Rightarrow> Inl InvalidPointEntry
         | Some entry \<Rightarrow>
             (case entry_base entry of
                None \<Rightarrow> Inl InvalidPointEntry
              | Some base \<Rightarrow>
                  (case valueStr_of (entry_value entry) of
                     Inl e \<Rightarrow> Inl e
                   | Inr valueStr \<Rightarrow>
                       (case parseBigIntFromString valueStr base of
                          Inl e \<Rightarrow> Inl e
                        | Inr y \<Rightarrow>
                            points_loop_String rest (pts @ [\<lparr>px = BigInt rawKey, py = y\<rparr>]))))))"

text \<open>
  The member loop of \<open>findConstantTermFromFile\<close>, which takes a string value only:
  \<^verbatim>\<open>
  for (const rawKey of Object.keys(data)) {
      if (rawKey === 'keys') continue;
      if (!/^-?\d+$/.test(rawKey)) throw new Error(`Invalid point key ...`);
      const x = BigInt(rawKey);
      const entry = data[rawKey];
      if (!entry || typeof entry.value !== 'string' || typeof entry.base === 'undefined')
          throw new Error(`Invalid point entry for key ... Must be object with 'value' (string) and 'base'.`);
      const y = parseBigIntFromString(entry.value, parseInt(entry.base, 10));
      pts.push({ x, y });
  }
  \<close>
\<close>

fun points_loop_File :: "(jsstring \<times> entry option) list \<Rightarrow> point list \<Rightarrow> error + point list" where
  "points_loop_File [] pts = Inr pts"
| "points_loop_File ((rawKey, entry) # rest) pts =
     (if rawKey = lit ''keys'' then points_loop_File rest pts
      else if \<not> isPointKey rawKey then Inl InvalidPointKey
      else
        (case entry of
           None \<Rightarrow> Inl InvalidPointEntry
         | Some entry \<Rightarrow>
             (case (entry_value entry, entry_base entry) of
                (String valueStr, Some base) \<Rightarrow>
                  (case parseBigIntFromString valueStr base of
                     Inl e \<Rightarrow> Inl e
                   | Inr y \<Rightarrow> points_loop_File rest (pts @ [\<lparr>px = BigInt rawKey, py = y\<rparr>]))
              | _ \<Rightarrow> Inl InvalidPointEntry)))"

text \<open>
  The scan of adjacent pairs both builders run on the selected points:
  \<^verbatim>\<open>
  for (let i = 1; i < selected.length; i++) {
      if (selected[i].x === selected[i - 1].x) throw new Error(`Duplicate x values ...`);
  }
  \<close>
\<close>

fun adjacent_duplicate :: "point list \<Rightarrow> bool" where
  "adjacent_duplicate (p # q # rest) = (px q = px p \<or> adjacent_duplicate (q # rest))"
| "adjacent_duplicate _ = False"

text \<open>
  What both builders do once the points are collected. \<^verbatim>\<open>Array.prototype.sort\<close> is
  stable, as \<open>sort_key\<close> is.
  \<^verbatim>\<open>
  if (pts.length < k) throw new Error(`Not enough data points: ...`);
  pts.sort((a, b) => { if (a.x < b.x) return -1; if (a.x > b.x) return 1; return 0; });
  const selected = pts.slice(0, k);
  for (let i = 1; i < selected.length; i++) { ... }
  return computeConstantTermFromSelected(selected, k);
  \<close>
\<close>

definition select_and_compute :: "point list \<Rightarrow> int \<Rightarrow> error + (int \<times> int)" where
  "select_and_compute pts k =
     (if int (length pts) < k then Inl InsufficientPoints
      else
        let selected = take (nat k) (sort_key px pts) in
        if adjacent_duplicate selected then Inl DuplicateX
        else computeConstantTermFromSelected selected (Integer k))"

text \<open>
  \<^verbatim>\<open>
  function findConstantTermFromString(jsonString) {
      ...
      if (!parsed.keys || typeof parsed.keys.k === 'undefined') throw new Error('Missing "keys.k" in JSON input.');
      const k = Number(parsed.keys.k);
      if (!Number.isInteger(k) || k <= 0) throw new Error(`Invalid keys.k: ...`);
      const pts = [];
      for (const rawKey of Object.keys(parsed)) { ... }
      if (pts.length < k) ...
  }
  \<close>
\<close>

definition findConstantTermFromString :: "input_record \<Rightarrow> error + (int \<times> int)" where
  "findConstantTermFromString parsed =
     (case keys_k parsed of
        None \<Rightarrow> Inl MissingK
      | Some NonInteger \<Rightarrow> Inl InvalidK
      | Some (Integer k) \<Rightarrow>
          if k \<le> 0 then Inl InvalidK
          else
            (case points_loop_String (members parsed) [] of
               Inl e \<Rightarrow> Inl e
             | Inr pts \<Rightarrow> select_and_compute pts k))"

definition findConstantTermFromFile :: "input_record \<Rightarrow> error + (int \<times> int)" where
  "findConstantTermFromFile data =
     (case keys_k data of
        None \<Rightarrow> Inl MissingK
      | Some NonInteger \<Rightarrow> Inl InvalidK
      | Some (Integer k) \<Rightarrow>
          if k \<le> 0 then Inl InvalidK
          else
            (case points_loop_File (members data) [] of
               Inl e \<Rightarrow> Inl e
             | Inr pts \<Rightarrow> select_and_compute pts k))"

section \<open>Output formatting\<close>

text \<open>
  \<^verbatim>\<open>BigInt.prototype.toString()\<close>: the decimal digits, most significant first, after a
  \<open>-\<close> for a negative value.
\<close>

fun decimal_digits :: "nat \<Rightarrow> jsstring" where
  "decimal_digits n =
     (if n < 10 then [0x30 + n] else decimal_digits (n div 10) @ [0x30 + n mod 10])"

definition toString :: "int \<Rightarrow> jsstring" where
  "toString n = (if n < 0 then 0x2D # decimal_digits (nat (- n)) else decimal_digits (nat n))"

text \<open>
  \<^verbatim>\<open>
  function processJsonStringOrFileContent(content) {
      const [num, den] = findConstantTermFromString(content);
      return den === 1n ? num.toString() : `${num.toString()}/${den.toString()}`;
  }
  \<close>
\<close>

definition processJsonStringOrFileContent :: "input_record \<Rightarrow> error + jsstring" where
  "processJsonStringOrFileContent content =
     (case findConstantTermFromString content of
        Inl e \<Rightarrow> Inl e
      | Inr (num, den) \<Rightarrow>
          Inr (if den = 1 then toString num else toString num @ lit ''/'' @ toString den))"

text \<open>
  The line the batch driver of the file variant logs for one file that succeeds:
  \<^verbatim>\<open>
  const [num, den] = findConstantTermFromFile(abs);
  if (den === 1n) {
      console.log(`${fname} => constant term (c) = ${num.toString()}`);
  } else {
      console.log(`${fname} => constant term (c) = ${num.toString()}/${den.toString()}`);
  }
  \<close>
\<close>

definition main_log :: "jsstring \<Rightarrow> input_record \<Rightarrow> error + jsstring" where
  "main_log fname data =
     (case findConstantTermFromFile data of
        Inl e \<Rightarrow> Inl e
      | Inr (num, den) \<Rightarrow>
          if den = 1 then Inr (fname @ lit '' => constant term (c) = '' @ toString num)
          else Inr (fname @ lit '' => constant term (c) = '' @ toString num @ lit ''/'' @ toString den))"

section \<open>Notions used to state the properties\<close>

text \<open>
  What is left of a string once the parser has trimmed it, taken the sign off and removed
  the separators; the sign it applies; and the value of a digit string by position.
  A character is a valid digit of a base when \<open>DIGIT_MAP\<close> has its lower case with a value
  below the base.
\<close>

definition unsigned_part :: "jsstring \<Rightarrow> jsstring" where
  "unsigned_part s = (if s \<noteq> [] \<and> (hd s = 0x2B \<or> hd s = 0x2D) then tl s else s)"

definition digit_part :: "jsstring \<Rightarrow> jsstring" where
  "digit_part s = filter (\<lambda>c. c \<noteq> 0x5F) (unsigned_part (trim s))"

definition sign_of :: "jsstring \<Rightarrow> int" where
  "sign_of s = (if trim s \<noteq> [] \<and> hd (trim s) = 0x2D then - 1 else 1)"

definition valid_digit :: "int \<Rightarrow> codepoint \<Rightarrow> bool" where
  "valid_digit b c = (case DIGIT_MAP (toLowerCase c) of None \<Rightarrow> False | Some d \<Rightarrow> int d < b)"

definition digit_value :: "codepoint \<Rightarrow> int" where
  "digit_value c = (case DIGIT_MAP (toLowerCase c) of None \<Rightarrow> 0 | Some d \<Rightarrow> int d)"

definition positional_value :: "int \<Rightarrow> jsstring \<Rightarrow> int" where
  "positional_value b ds = (\<Sum>i<length ds. digit_value (ds ! i) * b ^ (length ds - 1 - i))"

text \<open>
  The digit alphabet in the specification's words, written without the parser's table:
  the 36 symbols are \<open>0\<close> to \<open>9\<close> then \<open>a\<close> to \<open>z\<close>, the value of a character is its
  position among them, and a letter has the same value in upper and in lower case.
\<close>

definition spec_digit :: "codepoint \<Rightarrow> nat option" where
  "spec_digit c =
     (if 0x30 \<le> c \<and> c \<le> 0x39 then Some (c - 0x30)
      else if 0x61 \<le> c \<and> c \<le> 0x7A then Some (c - 0x61 + 10)
      else if 0x41 \<le> c \<and> c \<le> 0x5A then Some (c - 0x41 + 10)
      else None)"

definition spec_digit_value :: "codepoint \<Rightarrow> int" where
  "spec_digit_value c = (case spec_digit c of None \<Rightarrow> 0 | Some d \<Rightarrow> int d)"

text \<open>
  The Lagrange basis at zero over the first \<open>k\<close> points, as the evaluator's loops form it:
  numerator and denominator of the \<open>j\<close>-th basis value, and the sum of the terms.
\<close>

definition basis_num :: "point list \<Rightarrow> nat \<Rightarrow> nat \<Rightarrow> int" where
  "basis_num pts k j = (\<Prod>i\<in>{..<k} - {j}. 0 - px (pts ! i))"

definition basis_den :: "point list \<Rightarrow> nat \<Rightarrow> nat \<Rightarrow> int" where
  "basis_den pts k j = (\<Prod>i\<in>{..<k} - {j}. px (pts ! j) - px (pts ! i))"

definition lagrange_at_zero :: "point list \<Rightarrow> nat \<Rightarrow> rat" where
  "lagrange_at_zero pts k =
     (\<Sum>j<k. of_int (py (pts ! j) * basis_num pts k j) / of_int (basis_den pts k j))"

definition distinct_x :: "point list \<Rightarrow> nat \<Rightarrow> bool" where
  "distinct_x pts k \<longleftrightarrow> (\<forall>i<k. \<forall>j<k. i \<noteq> j \<longrightarrow> px (pts ! i) \<noteq> px (pts ! j))"

text \<open>
  A polynomial is the list of its coefficients, the constant term first; \<open>poly_eval\<close> is
  its value. A polynomial interpolates a list of points when it takes the value \<open>y\<close> at
  every \<open>x\<close>. The other functions build polynomials: the sum, the product with
  \<open>x - r\<close>, the quotient by \<open>x - a\<close>, and the Lagrange polynomial of a list of points.
\<close>

fun poly_eval :: "'a::comm_ring_1 list \<Rightarrow> 'a \<Rightarrow> 'a" where
  "poly_eval [] x = 0"
| "poly_eval (c # cs) x = c + x * poly_eval cs x"

definition interpolates :: "rat list \<Rightarrow> point list \<Rightarrow> bool" where
  "interpolates cs pts \<longleftrightarrow> (\<forall>p\<in>set pts. poly_eval cs (of_int (px p)) = of_int (py p))"

fun padd :: "'a::comm_ring_1 list \<Rightarrow> 'a list \<Rightarrow> 'a list" where
  "padd [] q = q"
| "padd p [] = p"
| "padd (a # p) (b # q) = (a + b) # padd p q"

definition mul_linear :: "'a::comm_ring_1 \<Rightarrow> 'a list \<Rightarrow> 'a list" where
  "mul_linear r p = padd (map (\<lambda>c. - r * c) p) (0 # p)"

fun pquot :: "'a::comm_ring_1 \<Rightarrow> 'a list \<Rightarrow> 'a list" where
  "pquot a [] = []"
| "pquot a [c] = []"
| "pquot a (c # cs) = poly_eval cs a # pquot a cs"

definition lagrange_coeffs :: "point list \<Rightarrow> rat list" where
  "lagrange_coeffs pts =
     (let k = length pts in
      foldr padd
        (map (\<lambda>j. map (\<lambda>c. of_int (py (pts ! j)) / of_int (basis_den pts k j) * c)
                    (foldr mul_linear (map (\<lambda>i. of_int (px (pts ! i))) (filter (\<lambda>i. i \<noteq> j) [0..<k])) [1]))
             [0..<k])
        (replicate k 0))"

text \<open>
  One round of a builder's member loop, as a function of the member: the point it
  pushes, nothing for the member \<open>keys\<close>, or the error it throws.
\<close>

definition member_point_String :: "jsstring \<times> entry option \<Rightarrow> error + point option" where
  "member_point_String m =
     (case m of (rawKey, entry) \<Rightarrow>
        if rawKey = lit ''keys'' then Inr None
        else if \<not> isPointKey rawKey then Inl InvalidPointKey
        else
          (case entry of
             None \<Rightarrow> Inl InvalidPointEntry
           | Some entry \<Rightarrow>
               (case entry_base entry of
                  None \<Rightarrow> Inl InvalidPointEntry
                | Some base \<Rightarrow>
                    (case valueStr_of (entry_value entry) of
                       Inl e \<Rightarrow> Inl e
                     | Inr valueStr \<Rightarrow>
                         (case parseBigIntFromString valueStr base of
                            Inl e \<Rightarrow> Inl e
                          | Inr y \<Rightarrow> Inr (Some \<lparr>px = BigInt rawKey, py = y\<rparr>))))))"

definition member_point_File :: "jsstring \<times> entry option \<Rightarrow> error + point option" where
  "member_point_File m =
     (case m of (rawKey, entry) \<Rightarrow>
        if rawKey = lit ''keys'' then Inr None
        else if \<not> isPointKey rawKey then Inl InvalidPointKey
        else
          (case entry of
             None \<Rightarrow> Inl InvalidPointEntry
           | Some entry \<Rightarrow>
               (case (entry_value entry, entry_base entry) of
                  (String valueStr, Some base) \<Rightarrow>
                    (case parseBigIntFromString valueStr base of
                       Inl e \<Rightarrow> Inl e
                     | Inr y \<Rightarrow> Inr (Some \<lparr>px = BigInt rawKey, py = y\<rparr>))
                | _ \<Rightarrow> Inl InvalidPointEntry)))"

definition pushed :: "('m \<Rightarrow> error + point option) \<Rightarrow> 'm \<Rightarrow> point list" where
  "pushed f m = (case f m of Inr (Some p) \<Rightarrow> [p] | _ \<Rightarrow> [])"

section \<open>Properties of fraction reduction\<close>

lemma smod_nonneg: "0 \<le> a \<Longrightarrow> 0 \<le> b \<Longrightarrow> (a::int) smod b = a mod b"
  by (cases "a = 0") (simp_all add: signed_modulo_int_def)

lemma bigIntGcd_loop_gcd: "0 \<le> a \<Longrightarrow> 0 \<le> b \<Longrightarrow> bigIntGcd_loop a b = gcd a b"
proof (induction a b rule: bigIntGcd_loop.induct)
  case (1 a b)
  show ?case
  proof (cases "b = 0")
    case True
    with 1 show ?thesis by simp
  next
    case False
    with 1 have pos: "0 < b" by simp
    have m: "a smod b = a mod b"
      using 1 by (simp add: smod_nonneg)
    have "bigIntGcd_loop a b = bigIntGcd_loop b (a mod b)"
      using False m by simp
    also have "\<dots> = gcd b (a mod b)"
      using "1.IH" [OF False] pos m by simp
    also have "\<dots> = gcd a b"
      by (simp add: gcd.commute gcd_red_int [symmetric])
    finally show ?thesis .
  qed
qed

lemma bigIntGcd_gcd: "bigIntGcd a b = gcd a b"
proof -
  have "bigIntGcd a b = bigIntGcd_loop \<bar>a\<bar> \<bar>b\<bar>"
    by (simp add: bigIntGcd_def Let_def abs_if)
  also have "\<dots> = gcd \<bar>a\<bar> \<bar>b\<bar>"
    by (rule bigIntGcd_loop_gcd) simp_all
  finally show ?thesis by simp
qed

lemma sdiv_exact: "g dvd a \<Longrightarrow> 0 < g \<Longrightarrow> (a::int) sdiv g = a div g"
  by (simp add: signed_divide_int_def sgn_if abs_if dvd_neg_div zdiv_zminus1_eq_if)

lemma reduceFraction_eq:
  assumes "den \<noteq> 0"
  shows "reduceFraction num den =
    Inr (sgn den * num div gcd num den, \<bar>den\<bar> div gcd num den)"
proof -
  have g: "0 < gcd num den" using assms by simp
  show ?thesis
  proof (cases "den < 0")
    case True
    then show ?thesis using assms g
      by (simp add: reduceFraction_def Let_def bigIntGcd_gcd sdiv_exact dvd_neg_div)
  next
    case False
    then show ?thesis using assms g
      by (simp add: reduceFraction_def Let_def bigIntGcd_gcd sdiv_exact)
  qed
qed

lemma reduceFraction_props:
  assumes "den \<noteq> 0"
  obtains n d where "reduceFraction num den = Inr (n, d)" "0 < d" "coprime n d"
    "n * den = num * d"
proof -
  let ?g = "gcd num den"
  let ?n = "sgn den * num div ?g" and ?d = "\<bar>den\<bar> div ?g"
  have g: "0 < ?g" using assms by simp
  have gn: "?g dvd sgn den * num" and gd: "?g dvd \<bar>den\<bar>" by simp_all
  have d: "0 < ?d"
    using assms g gd by (simp add: pos_imp_zdiv_pos_iff zdvd_imp_le)
  have "gcd (sgn den * num) \<bar>den\<bar> = ?g"
    using assms by (simp add: sgn_if)
  then have cop: "coprime ?n ?d"
    using g by (metis div_gcd_coprime abs_eq_0 assms)
  have "?n * ?g = sgn den * num" "?d * ?g = \<bar>den\<bar>"
    using gn gd by simp_all
  then have "?n * den * ?g = num * ?d * ?g"
    by (metis (no_types, opaque_lifting) abs_sgn mult.assoc mult.commute mult.left_commute)
  then have "?n * den = num * ?d" using assms by simp
  with d cop reduceFraction_eq [OF assms, of num] that show ?thesis by blast
qed

lemma reduceFraction_reduced:
  assumes "0 < d" "coprime n d"
  shows "reduceFraction n d = Inr (n, d)"
  using assms by (simp add: reduceFraction_eq coprime_iff_gcd_eq_1 sgn_if)

lemma reduceFraction_Inl: "reduceFraction num den = Inl e \<longleftrightarrow> den = 0 \<and> e = ZeroDenominator"
  by (cases "den = 0") (auto simp: reduceFraction_eq, simp_all add: reduceFraction_def)

text \<open>
  Claim C7. For a denominator other than zero, \<open>reduceFraction\<close> returns a pair \<open>(n, d)\<close>
  with \<open>d > 0\<close> and \<open>gcd \<bar>n\<bar> d = 1\<close> that is the same rational number as \<open>num / den\<close>;
  the pair is the one obtained by negating both numbers when \<open>den < 0\<close> and dividing both
  by their greatest common divisor, which is what the remainder loop \<open>bigIntGcd\<close>
  computes; reducing the result again returns it unchanged. \<open>reduceFraction\<close> fails
  exactly when the denominator is zero, and then with \<open>ZeroDenominator\<close>.
\<close>

theorem reduceFraction_correct:
  "(den \<noteq> 0 \<longrightarrow>
      (\<exists>n d. reduceFraction num den = Inr (n, d) \<and> 0 < d \<and> gcd \<bar>n\<bar> d = 1
         \<and> (of_int n :: rat) / of_int d = of_int num / of_int den
         \<and> (n, d) =
             (let (num', den') = (if den < 0 then (- num, - den) else (num, den));
                  g = gcd \<bar>num'\<bar> den'
              in (num' div g, den' div g))
         \<and> reduceFraction n d = Inr (n, d)))
   \<and> (reduceFraction num den = Inl e \<longleftrightarrow> den = 0 \<and> e = ZeroDenominator)
   \<and> bigIntGcd a b = gcd a b"
proof (intro conjI impI)
  assume nz: "den \<noteq> 0"
  obtain n d where r: "reduceFraction num den = Inr (n, d)" and d: "0 < d"
    and c: "coprime n d" and v: "n * den = num * d"
    by (rule reduceFraction_props [OF nz])
  have "(of_int n :: rat) * of_int den = of_int num * of_int d"
    using v by (metis of_int_mult)
  then have q: "(of_int n :: rat) / of_int d = of_int num / of_int den"
    using nz d by (simp add: frac_eq_eq)
  have s: "(n, d) =
      (let (num', den') = (if den < 0 then (- num, - den) else (num, den));
           g = gcd \<bar>num'\<bar> den'
       in (num' div g, den' div g))"
  proof (cases "den < 0")
    case True
    then have "sgn den * num = - num" "\<bar>den\<bar> = - den"
      by simp_all
    with r nz True show ?thesis
      by (simp add: reduceFraction_eq Let_def del: minus_mult_minus)
  next
    case False
    then have "sgn den * num = num" "\<bar>den\<bar> = den"
      using nz by simp_all
    with r nz False show ?thesis
      by (simp add: reduceFraction_eq Let_def)
  qed
  have g: "gcd \<bar>n\<bar> d = 1"
    using c by (simp add: coprime_iff_gcd_eq_1)
  have i: "reduceFraction n d = Inr (n, d)"
    by (rule reduceFraction_reduced [OF d c])
  show "\<exists>n d. reduceFraction num den = Inr (n, d) \<and> 0 < d \<and> gcd \<bar>n\<bar> d = 1
         \<and> (of_int n :: rat) / of_int d = of_int num / of_int den
         \<and> (n, d) =
             (let (num', den') = (if den < 0 then (- num, - den) else (num, den));
                  g = gcd \<bar>num'\<bar> den'
              in (num' div g, den' div g))
         \<and> reduceFraction n d = Inr (n, d)"
    by (intro exI [of _ n] exI [of _ d] conjI) (fact r d g q s i)+
next
  show "reduceFraction num den = Inl e \<longleftrightarrow> den = 0 \<and> e = ZeroDenominator"
    by (rule reduceFraction_Inl)
next
  show "bigIntGcd a b = gcd a b"
    by (rule bigIntGcd_gcd)
qed

theorem reduceFraction_correct_witness:
  "reduceFraction 6 (- 4) = Inr (- 3, 2) \<and> reduceFraction (- 3) 2 = Inr (- 3, 2)
   \<and> reduceFraction 6 0 = Inl ZeroDenominator"
proof -
  have g: "gcd (6::int) 4 = 2"
    by (simp add: gcd_code_int)
  show ?thesis
    using reduceFraction_correct [of "- 4" 6 ZeroDenominator 0 0]
      reduceFraction_correct [of 0 6 ZeroDenominator 0 0]
    by (auto simp: Let_def g)
qed

section \<open>Properties of the base-N integer parser\<close>

subsection \<open>The digit table\<close>

lemma DIGITS_closed: "DIGITS = map (\<lambda>i. if i < 10 then 48 + i else 87 + i) [0..<36]"
  by code_simp

lemma DIGITS_nth: "i < 36 \<Longrightarrow> DIGITS ! i = (if i < 10 then 48 + i else 87 + i)"
  by (simp add: DIGITS_closed del: upt_Suc)

lemma DIGITS_props: "length DIGITS = 36" "distinct DIGITS"
  by (simp_all add: DIGITS_def lit_def)

lemma DIGIT_MAP_nth:
  assumes "i < 36"
  shows "DIGIT_MAP [DIGITS ! i] = Some i"
proof -
  have "map_of (zip (map (\<lambda>c. [c]) DIGITS) [0..<length DIGITS]) (map (\<lambda>c. [c]) DIGITS ! i)
        = Some ([0..<length DIGITS] ! i)"
    using assms by (intro map_of_zip_nth) (simp_all add: DIGITS_props distinct_map inj_on_def)
  then show ?thesis
    using assms by (simp add: DIGIT_MAP_def DIGITS_props)
qed

lemma DIGIT_MAP_None: "s \<notin> (\<lambda>c. [c]) ` set DIGITS \<Longrightarrow> DIGIT_MAP s = None"
  by (simp add: DIGIT_MAP_def map_of_zip_is_None [THEN iffD2])

lemma set_DIGITS: "set DIGITS = {48..57} \<union> {97..122}"
proof -
  have "set DIGITS = (\<lambda>i. DIGITS ! i) ` {..<36}"
    using DIGITS_props(1) by (metis lessThan_atLeast0 list.set_map map_nth set_upt)
  also have "\<dots> = (\<lambda>i. if i < 10 then 48 + i else 87 + i) ` {..<36}"
    by (rule image_cong) (simp_all add: DIGITS_nth)
  also have "\<dots> = {48..57} \<union> {97..122}"
  proof (rule set_eqI)
    fix c :: nat
    show "c \<in> (\<lambda>i. if i < 10 then 48 + i else 87 + i) ` {..<36} \<longleftrightarrow> c \<in> {48..57} \<union> {97..122}"
    proof
      assume "c \<in> (\<lambda>i. if i < 10 then 48 + i else 87 + i) ` {..<36}"
      then show "c \<in> {48..57} \<union> {97..122}" by (auto split: if_splits)
    next
      assume c: "c \<in> {48..57} \<union> {97..122}"
      show "c \<in> (\<lambda>i. if i < 10 then 48 + i else 87 + i) ` {..<36}"
      proof (cases "c \<le> 57")
        case True
        with c have "c = (\<lambda>i. if i < 10 then 48 + i else 87 + i) (c - 48)" "c - 48 < 36"
          by auto
        then show ?thesis by blast
      next
        case False
        with c have "c = (\<lambda>i. if i < 10 then 48 + i else 87 + i) (c - 87)" "c - 87 < 36"
          by auto
        then show ?thesis by blast
      qed
    qed
  qed
  finally show ?thesis .
qed

lemma DIGIT_MAP_single:
  "DIGIT_MAP [c] =
     (if 48 \<le> c \<and> c \<le> 57 then Some (c - 48)
      else if 97 \<le> c \<and> c \<le> 122 then Some (c - 87)
      else None)"
proof -
  consider (d) "48 \<le> c \<and> c \<le> 57" | (l) "97 \<le> c \<and> c \<le> 122" | (n) "c \<notin> {48..57} \<union> {97..122}"
    by auto
  then show ?thesis
  proof cases
    case d
    then have i: "c - 48 < 36" "c - 48 < 10" "48 + (c - 48) = c" by arith+
    then have "DIGITS ! (c - 48) = c" "c - 48 < 36"
      by (simp_all only: DIGITS_nth if_True)
    with DIGIT_MAP_nth [of "c - 48"] d show ?thesis by simp
  next
    case l
    then have i: "c - 87 < 36" "\<not> c - 87 < 10" "87 + (c - 87) = c" by arith+
    then have "DIGITS ! (c - 87) = c" "c - 87 < 36"
      by (simp_all only: DIGITS_nth if_False)
    with DIGIT_MAP_nth [of "c - 87"] l show ?thesis by simp
  next
    case n
    then have "[c] \<notin> (\<lambda>c. [c]) ` set DIGITS"
      by (auto simp: set_DIGITS)
    then have "DIGIT_MAP [c] = None" by (rule DIGIT_MAP_None)
    with n show ?thesis by auto
  qed
qed

lemma DIGIT_MAP_toLowerCase:
  "DIGIT_MAP (toLowerCase c) =
     (if 48 \<le> c \<and> c \<le> 57 then Some (c - 48)
      else if 97 \<le> c \<and> c \<le> 122 then Some (c - 87)
      else if 65 \<le> c \<and> c \<le> 90 then Some (c - 55)
      else if c = 0x212A then Some 20
      else None)"
proof (cases "c = 0x130")
  case True
  have "[105, 775] \<notin> (\<lambda>c. [c]) ` set DIGITS" by auto
  then have "DIGIT_MAP [105, 775] = None" by (rule DIGIT_MAP_None)
  with True show ?thesis by (simp add: toLowerCase_def)
next
  case False
  then show ?thesis
    by (auto simp: toLowerCase_def DIGIT_MAP_single)
qed

subsection \<open>Trimming and the parts of a string\<close>

lemma parse_char:
  "parseBigIntFromString s (Integer b) =
     (if b < 2 \<or> b > 36 then Inl InvalidBase
      else if digit_part s = [] then Inl EmptyValue
      else (case digits_loop b (digit_part s) 0 of
              Inl e \<Rightarrow> Inl e
            | Inr r \<Rightarrow> Inr (sign_of s * r)))"
  by (cases "trim s")
     (auto simp: parseBigIntFromString_def digit_part_def unsigned_part_def sign_of_def Let_def
           split: sum.splits)

lemma digits_loop_valid:
  "list_all (valid_digit b) ds \<Longrightarrow>
     digits_loop b ds r = Inr (foldl (\<lambda>r c. r * b + digit_value c) r ds)"
  by (induction ds arbitrary: r)
     (auto simp: valid_digit_def digit_value_def split: option.splits)

lemma digits_loop_invalid:
  "\<not> list_all (valid_digit b) ds \<Longrightarrow> digits_loop b ds r = Inl InvalidCharacter"
  by (induction ds arbitrary: r)
     (auto simp: valid_digit_def split: option.splits)

lemma foldl_positional:
  "foldl (\<lambda>r c. r * b + digit_value c) r ds = r * b ^ length ds + positional_value b ds"
proof (induction ds arbitrary: r)
  case Nil
  show ?case by (simp add: positional_value_def)
next
  case (Cons c ds)
  have "positional_value b (c # ds) = digit_value c * b ^ length ds + positional_value b ds"
    unfolding positional_value_def
    by (simp add: lessThan_Suc_eq_insert_0 sum.reindex zero_notin_Suc_image atLeast0LessThan
          del: sum.lessThan_Suc)
  with Cons.IH [of "r * b + digit_value c"] show ?case
    by (simp add: algebra_simps)
qed

lemma valid_digit_chars:
  assumes "valid_digit b c"
  shows "\<not> isWhiteSpace c" "c \<noteq> 0x2B" "c \<noteq> 0x2D" "c \<noteq> 0x5F"
  using assms
  by (auto simp: valid_digit_def DIGIT_MAP_toLowerCase isWhiteSpace_def split: if_splits)

lemma trim_id:
  assumes "s \<noteq> []" "\<not> isWhiteSpace (hd s)" "\<not> isWhiteSpace (last s)"
  shows "trim s = s"
proof -
  have "dropWhile isWhiteSpace s = s"
    using assms by (cases s) simp_all
  moreover have "dropWhile isWhiteSpace (rev s) = rev s"
    using assms by (cases "rev s") (simp_all add: hd_rev)
  ultimately show ?thesis by (simp add: trim_def)
qed

lemma dropWhile_all: "list_all P xs \<Longrightarrow> dropWhile P xs = []"
  by (induction xs) auto

lemma trim_whitespace: "list_all isWhiteSpace s \<Longrightarrow> trim s = []"
  by (simp add: trim_def dropWhile_all)

lemma trim_surround:
  assumes "list_all isWhiteSpace ws1" "list_all isWhiteSpace ws2"
  shows "trim (ws1 @ s @ ws2) = trim s"
proof -
  have a: "dropWhile isWhiteSpace (ws1 @ s @ ws2) = dropWhile isWhiteSpace (s @ ws2)"
    using assms(1) by (simp add: dropWhile_append2 list_all_iff)
  show ?thesis
  proof (cases "list_all isWhiteSpace s")
    case True
    then have "list_all isWhiteSpace (s @ ws2)"
      using assms(2) by simp
    with True have e: "dropWhile isWhiteSpace (s @ ws2) = []" "dropWhile isWhiteSpace s = []"
      by (simp_all only: dropWhile_all)
    show ?thesis unfolding trim_def a e by simp
  next
    case False
    then have "dropWhile isWhiteSpace (s @ ws2) = dropWhile isWhiteSpace s @ ws2"
      by (auto simp: list_all_iff dropWhile_append1)
    moreover have "dropWhile isWhiteSpace (rev ws2 @ t) = dropWhile isWhiteSpace t" for t
      using assms(2) by (intro dropWhile_append2) (simp add: list_all_iff)
    ultimately show ?thesis
      using a by (simp add: trim_def)
  qed
qed

lemma trim_decompose:
  obtains ws1 ws2 where "s = ws1 @ trim s @ ws2" "list_all isWhiteSpace ws1"
    "list_all isWhiteSpace ws2"
proof -
  let ?u = "dropWhile isWhiteSpace s"
  have "?u = trim s @ rev (takeWhile isWhiteSpace (rev ?u))"
    unfolding trim_def by (metis rev_append rev_rev_ident takeWhile_dropWhile_id)
  then have "s = takeWhile isWhiteSpace s @ trim s @ rev (takeWhile isWhiteSpace (rev ?u))"
    by (metis takeWhile_dropWhile_id)
  moreover have "list_all isWhiteSpace (takeWhile isWhiteSpace s)"
    "list_all isWhiteSpace (rev (takeWhile isWhiteSpace (rev ?u)))"
    by (auto simp: list_all_iff dest: set_takeWhileD)
  ultimately show ?thesis using that by blast
qed

lemma parse_trim_cong:
  assumes "trim s = trim t"
  shows "parseBigIntFromString s base = parseBigIntFromString t base"
  unfolding parseBigIntFromString_def assms ..

lemma parts_of_shape:
  assumes ws: "list_all isWhiteSpace ws1" "list_all isWhiteSpace ws2"
    and sg: "sg = [] \<or> sg = [0x2B] \<or> sg = [0x2D]"
    and body: "\<forall>c\<in>set body. valid_digit b c \<or> c = 0x5F"
  shows "digit_part (ws1 @ sg @ body @ ws2) = filter (\<lambda>c. c \<noteq> 0x5F) body"
    and "sign_of (ws1 @ sg @ body @ ws2) = (if sg = [0x2D] then - 1 else 1)"
proof -
  have t: "trim (ws1 @ sg @ body @ ws2) = trim (sg @ body)"
    using trim_surround [OF ws, of "sg @ body"] by simp
  have nws: "\<not> isWhiteSpace c" if "c \<in> set (sg @ body)" for c
    using that sg body valid_digit_chars(1) [of b c]
    by (auto simp: isWhiteSpace_def)
  have nsign: "c \<noteq> 0x2B \<and> c \<noteq> 0x2D" if "c \<in> set body" for c
    using that body valid_digit_chars(2,3) [of b c] by auto
  have tr: "trim (sg @ body) = sg @ body"
  proof (cases "sg @ body = []")
    case True
    then show ?thesis by (simp add: trim_def)
  next
    case False
    then have "hd (sg @ body) \<in> set (sg @ body)" "last (sg @ body) \<in> set (sg @ body)"
      by (rule hd_in_set, rule last_in_set)
    then show ?thesis
      using False nws by (intro trim_id) blast+
  qed
  have u: "unsigned_part (sg @ body) = body"
  proof (cases "sg = []")
    case True
    show ?thesis
    proof (cases body)
      case Nil
      with True show ?thesis by (simp add: unsigned_part_def)
    next
      case (Cons c cs)
      with nsign [of c] True show ?thesis by (simp add: unsigned_part_def)
    qed
  next
    case False
    with sg show ?thesis by (auto simp: unsigned_part_def)
  qed
  have ts: "trim (ws1 @ sg @ body @ ws2) = sg @ body"
    using t tr by simp
  show "digit_part (ws1 @ sg @ body @ ws2) = filter (\<lambda>c. c \<noteq> 0x5F) body"
    by (simp only: digit_part_def ts u)
  have "(if sg @ body \<noteq> [] \<and> hd (sg @ body) = 0x2D then - 1 else (1::int))
      = (if sg = [0x2D] then - 1 else 1)"
  proof (cases "sg = []")
    case True
    show ?thesis
    proof (cases body)
      case Nil
      with True show ?thesis by simp
    next
      case (Cons c cs)
      with nsign [of c] True show ?thesis by simp
    qed
  next
    case False
    with sg show ?thesis by auto
  qed
  then show "sign_of (ws1 @ sg @ body @ ws2) = (if sg = [0x2D] then - 1 else 1)"
    unfolding sign_of_def ts .
qed

lemma parse_Inr_iff:
  "parseBigIntFromString s (Integer b) = Inr v \<longleftrightarrow>
     2 \<le> b \<and> b \<le> 36 \<and> digit_part s \<noteq> [] \<and> list_all (valid_digit b) (digit_part s)
     \<and> v = sign_of s * positional_value b (digit_part s)"
proof (cases "list_all (valid_digit b) (digit_part s)")
  case True
  then show ?thesis
    by (auto simp: parse_char digits_loop_valid foldl_positional)
next
  case False
  then show ?thesis
    by (auto simp: parse_char digits_loop_invalid)
qed

lemma parse_shape:
  assumes "parseBigIntFromString s (Integer b) = Inr v"
  obtains ws1 sg body ws2 where "s = ws1 @ sg @ body @ ws2"
    "list_all isWhiteSpace ws1" "list_all isWhiteSpace ws2"
    "sg = [] \<or> sg = [0x2B] \<or> sg = [0x2D]"
    "\<forall>c\<in>set body. valid_digit b c \<or> c = 0x5F"
    "filter (\<lambda>c. c \<noteq> 0x5F) body \<noteq> []"
proof -
  from assms have d: "digit_part s \<noteq> []" and v: "list_all (valid_digit b) (digit_part s)"
    by (simp_all add: parse_Inr_iff)
  obtain ws1 ws2 where s: "s = ws1 @ trim s @ ws2" and ws: "list_all isWhiteSpace ws1"
    "list_all isWhiteSpace ws2"
    by (rule trim_decompose)
  define body where "body = unsigned_part (trim s)"
  define sg where "sg = (if trim s \<noteq> [] \<and> (hd (trim s) = 0x2B \<or> hd (trim s) = 0x2D) then [hd (trim s)] else [])"
  have tb: "trim s = sg @ body"
    by (cases "trim s") (auto simp: sg_def body_def unsigned_part_def)
  have "s = ws1 @ sg @ body @ ws2"
    using s tb by simp
  moreover have "sg = [] \<or> sg = [0x2B] \<or> sg = [0x2D]"
    by (auto simp: sg_def)
  moreover have "\<forall>c\<in>set body. valid_digit b c \<or> c = 0x5F"
    using v by (auto simp: digit_part_def body_def list_all_iff)
  moreover have "filter (\<lambda>c. c \<noteq> 0x5F) body \<noteq> []"
    using d by (simp add: digit_part_def body_def)
  ultimately show ?thesis using ws that by blast
qed

lemma lit_simps: "lit [] = []" "lit (c # cs) = of_char c # lit cs"
  by (simp_all add: lit_def)

lemma valid_digit_eval:
  "valid_digit b c \<longleftrightarrow>
     (if 48 \<le> c \<and> c \<le> 57 then int (c - 48) < b
      else if 97 \<le> c \<and> c \<le> 122 then int (c - 87) < b
      else if 65 \<le> c \<and> c \<le> 90 then int (c - 55) < b
      else if c = 0x212A then 20 < b
      else False)"
  by (simp add: valid_digit_def DIGIT_MAP_toLowerCase)

lemma digit_value_eval:
  "digit_value c =
     (if 48 \<le> c \<and> c \<le> 57 then int (c - 48)
      else if 97 \<le> c \<and> c \<le> 122 then int (c - 87)
      else if 65 \<le> c \<and> c \<le> 90 then int (c - 55)
      else if c = 0x212A then 20
      else 0)"
  by (simp add: digit_value_def DIGIT_MAP_toLowerCase)

lemma parse_plain:
  assumes "2 \<le> b" "b \<le> 36" "ds \<noteq> []" "list_all (valid_digit b) ds"
  shows "parseBigIntFromString ds (Integer b) = Inr (foldl (\<lambda>r c. r * b + digit_value c) 0 ds)"
    and "parseBigIntFromString (0x2B # ds) (Integer b) = Inr (foldl (\<lambda>r c. r * b + digit_value c) 0 ds)"
    and "parseBigIntFromString (0x2D # ds) (Integer b) = Inr (- foldl (\<lambda>r c. r * b + digit_value c) 0 ds)"
proof -
  have body: "\<forall>c\<in>set ds. valid_digit b c \<or> c = 0x5F"
    using assms by (simp add: list_all_iff)
  have f: "filter (\<lambda>c. c \<noteq> 0x5F) ds = ds"
    using assms valid_digit_chars(4) [of b] by (auto simp: list_all_iff filter_id_conv)
  have ws: "list_all isWhiteSpace []" by simp
  note p = parts_of_shape [OF ws ws _ body]
  have e: "positional_value b ds = foldl (\<lambda>r c. r * b + digit_value c) 0 ds"
    by (simp add: foldl_positional)
  show "parseBigIntFromString ds (Integer b) = Inr (foldl (\<lambda>r c. r * b + digit_value c) 0 ds)"
    using assms p [of "[]"] f e by (simp add: parse_Inr_iff)
  show "parseBigIntFromString (0x2B # ds) (Integer b) = Inr (foldl (\<lambda>r c. r * b + digit_value c) 0 ds)"
    using assms p [of "[0x2B]"] f e by (simp add: parse_Inr_iff)
  show "parseBigIntFromString (0x2D # ds) (Integer b) = Inr (- foldl (\<lambda>r c. r * b + digit_value c) 0 ds)"
    using assms p [of "[0x2D]"] f e by (simp add: parse_Inr_iff)
qed

lemma parse_ff: "parseBigIntFromString (lit ''ff'') (Integer 16) = Inr 255"
  using parse_plain(1) [of 16 "lit ''ff''"]
  by (simp add: lit_simps valid_digit_eval digit_value_eval)

lemma parse_minus_ff: "parseBigIntFromString (lit ''-ff'') (Integer 16) = Inr (- 255)"
  using parse_plain(3) [of 16 "lit ''ff''"]
  by (simp add: lit_simps valid_digit_eval digit_value_eval)

subsection \<open>The alphabet of the specification\<close>

lemma spec_digit_lookup:
  assumes "spec_digit c = Some d"
  shows "DIGIT_MAP (toLowerCase c) = Some d"
  using assms by (auto simp: spec_digit_def DIGIT_MAP_toLowerCase split: if_splits)

lemma spec_digit_valid:
  assumes "spec_digit c = Some d" "int d < b"
  shows "valid_digit b c" "digit_value c = spec_digit_value c"
  using assms spec_digit_lookup [OF assms(1)]
  by (simp_all add: valid_digit_def digit_value_def spec_digit_value_def)

lemma foldl_spec_digits:
  assumes "\<forall>c\<in>set ds. \<exists>d. spec_digit c = Some d \<and> int d < b"
  shows "foldl (\<lambda>r c. r * b + digit_value c) r ds = foldl (\<lambda>r c. r * b + spec_digit_value c) r ds"
  using assms
proof (induction ds arbitrary: r)
  case Nil
  show ?case by simp
next
  case (Cons c ds)
  then obtain d where "spec_digit c = Some d" "int d < b" by auto
  then have "digit_value c = spec_digit_value c" by (rule spec_digit_valid(2))
  with Cons show ?case by simp
qed

lemma positional_spec_digits:
  assumes "\<forall>c\<in>set ds. \<exists>d. spec_digit c = Some d \<and> int d < b"
  shows "positional_value b ds = (\<Sum>i<length ds. spec_digit_value (ds ! i) * b ^ (length ds - 1 - i))"
  unfolding positional_value_def
proof (rule sum.cong)
  fix i assume "i \<in> {..<length ds}"
  then have "ds ! i \<in> set ds" by simp
  with assms obtain d where "spec_digit (ds ! i) = Some d" "int d < b" by blast
  then have "digit_value (ds ! i) = spec_digit_value (ds ! i)" by (rule spec_digit_valid(2))
  then show "digit_value (ds ! i) * b ^ (length ds - 1 - i)
      = spec_digit_value (ds ! i) * b ^ (length ds - 1 - i)"
    by simp
qed (rule refl)

lemma parse_spec_digits:
  assumes "2 \<le> b" "b \<le> 36" "ds \<noteq> []" "\<forall>c\<in>set ds. \<exists>d. spec_digit c = Some d \<and> int d < b"
  shows "parseBigIntFromString ds (Integer b) = Inr (foldl (\<lambda>r c. r * b + spec_digit_value c) 0 ds)"
    and "parseBigIntFromString (0x2B # ds) (Integer b) = Inr (foldl (\<lambda>r c. r * b + spec_digit_value c) 0 ds)"
    and "parseBigIntFromString (0x2D # ds) (Integer b) = Inr (- foldl (\<lambda>r c. r * b + spec_digit_value c) 0 ds)"
proof -
  have v: "list_all (valid_digit b) ds"
    using assms(4) spec_digit_valid(1) by (auto simp: list_all_iff)
  note p = parse_plain [OF assms(1-3) v]
  show "parseBigIntFromString ds (Integer b) = Inr (foldl (\<lambda>r c. r * b + spec_digit_value c) 0 ds)"
    using p(1) by (simp only: foldl_spec_digits [OF assms(4)])
  show "parseBigIntFromString (0x2B # ds) (Integer b) = Inr (foldl (\<lambda>r c. r * b + spec_digit_value c) 0 ds)"
    using p(2) by (simp only: foldl_spec_digits [OF assms(4)])
  show "parseBigIntFromString (0x2D # ds) (Integer b) = Inr (- foldl (\<lambda>r c. r * b + spec_digit_value c) 0 ds)"
    using p(3) by (simp only: foldl_spec_digits [OF assms(4)])
qed

lemma spec_digit_eval:
  "spec_digit c = Some d \<and> int d < b \<longleftrightarrow>
     (if 48 \<le> c \<and> c \<le> 57 then d = c - 48 \<and> int (c - 48) < b
      else if 97 \<le> c \<and> c \<le> 122 then d = c - 87 \<and> int (c - 87) < b
      else if 65 \<le> c \<and> c \<le> 90 then d = c - 55 \<and> int (c - 55) < b
      else False)"
  by (auto simp: spec_digit_def)

subsection \<open>The claims about the parser\<close>

text \<open>
  Claim C2. The alphabet has 36 symbols, \<open>0\<close> to \<open>9\<close> then \<open>a\<close> to \<open>z\<close>; the value of a
  character is its position there, a letter counting in either case (\<open>spec_digit\<close>, which
  is written from these words and not from the parser's table). For a base \<open>b\<close> from 2 to
  36 and a non-empty string \<open>ds\<close> of characters with a value below \<open>b\<close>,
  \<open>parseBigIntFromString\<close> returns the number accumulated from the left by
  \<open>result * b + digit\<close>, also after a \<open>+\<close> sign, and its negation after a \<open>-\<close> sign; the
  accumulated number is the sum of the digit values weighted by the powers of the base.
  In particular \<open>-ff\<close> in base 16 is the negation of \<open>ff\<close> in base 16, and \<open>FF\<close> is the
  same number as \<open>ff\<close>.
\<close>

theorem parseBigIntFromString_positional:
  "(2 \<le> b \<and> b \<le> 36 \<and> ds \<noteq> [] \<and> (\<forall>c\<in>set ds. \<exists>d. spec_digit c = Some d \<and> int d < b) \<longrightarrow>
      parseBigIntFromString ds (Integer b)
        = Inr (foldl (\<lambda>r c. r * b + spec_digit_value c) 0 ds)
    \<and> parseBigIntFromString (0x2B # ds) (Integer b)
        = Inr (foldl (\<lambda>r c. r * b + spec_digit_value c) 0 ds)
    \<and> parseBigIntFromString (0x2D # ds) (Integer b)
        = Inr (- foldl (\<lambda>r c. r * b + spec_digit_value c) 0 ds)
    \<and> foldl (\<lambda>r c. r * b + spec_digit_value c) 0 ds
        = (\<Sum>i<length ds. spec_digit_value (ds ! i) * b ^ (length ds - 1 - i)))
   \<and> parseBigIntFromString (lit ''ff'') (Integer 16) = Inr 255
   \<and> parseBigIntFromString (lit ''-ff'') (Integer 16) = Inr (- 255)
   \<and> parseBigIntFromString (lit ''FF'') (Integer 16) = Inr 255
   \<and> parseBigIntFromString (lit ''-Ff'') (Integer 16) = Inr (- 255)"
proof (intro conjI impI)
  assume a: "2 \<le> b \<and> b \<le> 36 \<and> ds \<noteq> [] \<and> (\<forall>c\<in>set ds. \<exists>d. spec_digit c = Some d \<and> int d < b)"
  then have b: "2 \<le> b" "b \<le> 36" "ds \<noteq> []" "\<forall>c\<in>set ds. \<exists>d. spec_digit c = Some d \<and> int d < b"
    by simp_all
  show "parseBigIntFromString ds (Integer b) = Inr (foldl (\<lambda>r c. r * b + spec_digit_value c) 0 ds)"
    by (rule parse_spec_digits(1) [OF b])
  show "parseBigIntFromString (0x2B # ds) (Integer b)
      = Inr (foldl (\<lambda>r c. r * b + spec_digit_value c) 0 ds)"
    by (rule parse_spec_digits(2) [OF b])
  show "parseBigIntFromString (0x2D # ds) (Integer b)
      = Inr (- foldl (\<lambda>r c. r * b + spec_digit_value c) 0 ds)"
    by (rule parse_spec_digits(3) [OF b])
  have "foldl (\<lambda>r c. r * b + spec_digit_value c) 0 ds = foldl (\<lambda>r c. r * b + digit_value c) 0 ds"
    by (rule foldl_spec_digits [OF b(4), symmetric])
  also have "\<dots> = positional_value b ds"
    by (simp add: foldl_positional)
  also have "\<dots> = (\<Sum>i<length ds. spec_digit_value (ds ! i) * b ^ (length ds - 1 - i))"
    by (rule positional_spec_digits [OF b(4)])
  finally show "foldl (\<lambda>r c. r * b + spec_digit_value c) 0 ds
      = (\<Sum>i<length ds. spec_digit_value (ds ! i) * b ^ (length ds - 1 - i))" .
next
  show "parseBigIntFromString (lit ''ff'') (Integer 16) = Inr 255"
    by (rule parse_ff)
  show "parseBigIntFromString (lit ''-ff'') (Integer 16) = Inr (- 255)"
    by (rule parse_minus_ff)
  show "parseBigIntFromString (lit ''FF'') (Integer 16) = Inr 255"
    using parse_spec_digits(1) [of 16 "lit ''FF''"]
    by (simp add: lit_simps spec_digit_eval spec_digit_value_def spec_digit_def)
  show "parseBigIntFromString (lit ''-Ff'') (Integer 16) = Inr (- 255)"
    using parse_spec_digits(3) [of 16 "lit ''Ff''"]
    by (simp add: lit_simps spec_digit_eval spec_digit_value_def spec_digit_def)
qed

theorem parseBigIntFromString_positional_witness:
  "parseBigIntFromString (lit ''1aZ'') (Integer 36) = Inr 1691
   \<and> parseBigIntFromString (lit ''+1aZ'') (Integer 36) = Inr 1691
   \<and> parseBigIntFromString (lit ''-1aZ'') (Integer 36) = Inr (- 1691)
   \<and> parseBigIntFromString (lit ''-1Az'') (Integer 36) = Inr (- 1691)"
  using parseBigIntFromString_positional [of 36 "lit ''1aZ''"]
    parseBigIntFromString_positional [of 36 "lit ''1Az''"]
  by (simp add: lit_simps spec_digit_eval spec_digit_value_def spec_digit_def)



text \<open>
  Claim C10. The parser trims the value string first: surrounding a string with white
  space does not change the result, whatever the string and the base; and, for a base
  from 2 to 36, a string of white space only is treated as the empty string is, and fails
  with \<open>EmptyValue\<close>. (The base is checked before the string is looked at, so for any
  other base the failure is \<open>InvalidBase\<close> in both cases.)
\<close>

theorem parseBigIntFromString_trim:
  "(list_all isWhiteSpace ws1 \<and> list_all isWhiteSpace ws2 \<longrightarrow>
      parseBigIntFromString (ws1 @ s @ ws2) base = parseBigIntFromString s base)
   \<and> (list_all isWhiteSpace s \<and> 2 \<le> b \<and> b \<le> 36 \<longrightarrow>
        parseBigIntFromString s (Integer b) = Inl EmptyValue
        \<and> parseBigIntFromString s (Integer b) = parseBigIntFromString [] (Integer b))"
proof (intro conjI impI)
  assume "list_all isWhiteSpace ws1 \<and> list_all isWhiteSpace ws2"
  then have "trim (ws1 @ s @ ws2) = trim s"
    by (simp add: trim_surround)
  then show "parseBigIntFromString (ws1 @ s @ ws2) base = parseBigIntFromString s base"
    by (rule parse_trim_cong)
next
  assume a: "list_all isWhiteSpace s \<and> 2 \<le> b \<and> b \<le> 36"
  then have t: "trim s = []" by (simp add: trim_whitespace)
  with a show "parseBigIntFromString s (Integer b) = Inl EmptyValue"
    by (simp add: parseBigIntFromString_def)
  have "trim s = trim []" using t by (simp add: trim_def)
  then show "parseBigIntFromString s (Integer b) = parseBigIntFromString [] (Integer b)"
    by (rule parse_trim_cong)
qed

theorem parseBigIntFromString_trim_witness:
  "list_all isWhiteSpace [0x20, 0x9] \<and> list_all isWhiteSpace [0xA, 0xFEFF]
   \<and> parseBigIntFromString ([0x20, 0x9] @ lit ''-ff'' @ [0xA, 0xFEFF]) (Integer 16) = Inr (- 255)
   \<and> parseBigIntFromString [0x20, 0xA0, 0x2003] (Integer 16) = Inl EmptyValue"
  using parseBigIntFromString_trim [of "[0x20, 0x9]" "[0xA, 0xFEFF]" "lit ''-ff''" "Integer 16" 16]
    parseBigIntFromString_trim [of "[]" "[]" "[0x20, 0xA0, 0x2003]" "Integer 16" 16]
  by (simp add: isWhiteSpace_def parse_minus_ff)

text \<open>
  Claim C8. Take a string of the shape the parser accepts: white space, an optional sign,
  a body of valid digits and \<open>_\<close> separators, white space. Any other body with the same
  digits in the same order, that is, the body with separators inserted or removed
  anywhere, gives the same result. Every string the parser accepts has that shape. In
  particular \<open>1_234\<close> and \<open>1234\<close> in base 10 are both 1234.
\<close>

theorem parseBigIntFromString_separators:
  "(list_all isWhiteSpace ws1 \<and> list_all isWhiteSpace ws2
      \<and> (sg = [] \<or> sg = [0x2B] \<or> sg = [0x2D])
      \<and> (\<forall>c\<in>set body. valid_digit b c \<or> c = 0x5F)
      \<and> filter (\<lambda>c. c \<noteq> 0x5F) body' = filter (\<lambda>c. c \<noteq> 0x5F) body \<longrightarrow>
      parseBigIntFromString (ws1 @ sg @ body' @ ws2) (Integer b)
        = parseBigIntFromString (ws1 @ sg @ body @ ws2) (Integer b))
   \<and> (parseBigIntFromString s (Integer b) = Inr v \<longrightarrow>
        (\<exists>ws1 sg body ws2. s = ws1 @ sg @ body @ ws2
           \<and> list_all isWhiteSpace ws1 \<and> list_all isWhiteSpace ws2
           \<and> (sg = [] \<or> sg = [0x2B] \<or> sg = [0x2D])
           \<and> (\<forall>c\<in>set body. valid_digit b c \<or> c = 0x5F)))
   \<and> parseBigIntFromString (lit ''1_234'') (Integer 10) = Inr 1234
   \<and> parseBigIntFromString (lit ''1234'') (Integer 10) = Inr 1234"
proof (intro conjI impI)
  assume a: "list_all isWhiteSpace ws1 \<and> list_all isWhiteSpace ws2
      \<and> (sg = [] \<or> sg = [0x2B] \<or> sg = [0x2D])
      \<and> (\<forall>c\<in>set body. valid_digit b c \<or> c = 0x5F)
      \<and> filter (\<lambda>c. c \<noteq> 0x5F) body' = filter (\<lambda>c. c \<noteq> 0x5F) body"
  then have ws: "list_all isWhiteSpace ws1" "list_all isWhiteSpace ws2"
    and sg: "sg = [] \<or> sg = [0x2B] \<or> sg = [0x2D]"
    and body: "\<forall>c\<in>set body. valid_digit b c \<or> c = 0x5F"
    and f: "filter (\<lambda>c. c \<noteq> 0x5F) body' = filter (\<lambda>c. c \<noteq> 0x5F) body"
    by simp_all
  have body': "\<forall>c\<in>set body'. valid_digit b c \<or> c = 0x5F"
  proof
    fix c assume c: "c \<in> set body'"
    show "valid_digit b c \<or> c = 0x5F"
    proof (cases "c = 0x5F")
      case False
      with c have "c \<in> set (filter (\<lambda>c. c \<noteq> 0x5F) body')" by simp
      then have "c \<in> set body" unfolding f by simp
      with body show ?thesis by blast
    qed simp
  qed
  have "digit_part (ws1 @ sg @ body' @ ws2) = digit_part (ws1 @ sg @ body @ ws2)"
    "sign_of (ws1 @ sg @ body' @ ws2) = sign_of (ws1 @ sg @ body @ ws2)"
    by (simp_all only: parts_of_shape [OF ws sg body] parts_of_shape [OF ws sg body'] f)
  then show "parseBigIntFromString (ws1 @ sg @ body' @ ws2) (Integer b)
        = parseBigIntFromString (ws1 @ sg @ body @ ws2) (Integer b)"
    by (simp only: parse_char)
next
  assume "parseBigIntFromString s (Integer b) = Inr v"
  then show "\<exists>ws1 sg body ws2. s = ws1 @ sg @ body @ ws2
           \<and> list_all isWhiteSpace ws1 \<and> list_all isWhiteSpace ws2
           \<and> (sg = [] \<or> sg = [0x2B] \<or> sg = [0x2D])
           \<and> (\<forall>c\<in>set body. valid_digit b c \<or> c = 0x5F)"
    by (rule parse_shape) blast
next
  have f: "filter (\<lambda>c. c \<noteq> 0x5F) (lit ''1_234'') = lit ''1234''"
    by (simp add: lit_simps)
  have w: "list_all isWhiteSpace []" by simp
  have v: "\<forall>c\<in>set (lit ''1_234''). valid_digit 10 c \<or> c = 0x5F"
    by (simp add: lit_simps valid_digit_eval)
  show p: "parseBigIntFromString (lit ''1234'') (Integer 10) = Inr 1234"
    using parse_plain(1) [of 10 "lit ''1234''"]
    by (simp add: lit_simps valid_digit_eval digit_value_eval)
  have f2: "filter (\<lambda>c. c \<noteq> 0x5F) (lit ''1234'') = lit ''1234''"
    by (simp add: lit_simps)
  have v2: "\<forall>c\<in>set (lit ''1234''). valid_digit 10 c \<or> c = 0x5F"
    by (simp add: lit_simps valid_digit_eval)
  have "digit_part (lit ''1_234'') = digit_part (lit ''1234'')"
    "sign_of (lit ''1_234'') = sign_of (lit ''1234'')"
    using parts_of_shape [OF w w _ v, of "[]"] parts_of_shape [OF w w _ v2, of "[]"]
    by (simp_all add: f f2)
  then have "parseBigIntFromString (lit ''1_234'') (Integer 10)
      = parseBigIntFromString (lit ''1234'') (Integer 10)"
    by (simp only: parse_char)
  with p show "parseBigIntFromString (lit ''1_234'') (Integer 10) = Inr 1234"
    by simp
qed

theorem parseBigIntFromString_separators_witness:
  "parseBigIntFromString (lit '' -_1_2__34_ '') (Integer 10)
     = parseBigIntFromString (lit '' -1234 '') (Integer 10)
   \<and> (\<exists>ws1 sg body ws2. lit ''1_234'' = ws1 @ sg @ body @ ws2
         \<and> list_all isWhiteSpace ws1 \<and> list_all isWhiteSpace ws2
         \<and> (sg = [] \<or> sg = [0x2B] \<or> sg = [0x2D])
         \<and> (\<forall>c\<in>set body. valid_digit 10 c \<or> c = 0x5F))"
  using parseBigIntFromString_separators
      [of "lit '' ''" "lit '' ''" "lit ''-''" "lit ''1234''" 10 "lit ''_1_2__34_''"
          "lit ''1_234''" 1234]
  by (simp add: lit_simps isWhiteSpace_def valid_digit_eval)

section \<open>Properties of the evaluator\<close>

subsection \<open>The loops\<close>

lemma basis_loop_ok:
  assumes "\<forall>i\<in>set is. i \<noteq> j \<longrightarrow> px (pts ! i) \<noteq> px (pts ! j)"
  shows "basis_loop pts j is n d =
    Inr (n * (\<Prod>i\<leftarrow>filter (\<lambda>i. i \<noteq> j) is. 0 - px (pts ! i)),
         d * (\<Prod>i\<leftarrow>filter (\<lambda>i. i \<noteq> j) is. px (pts ! j) - px (pts ! i)))"
  using assms
  by (induction "is" arbitrary: n d) (simp_all add: Let_def mult.assoc)

lemma basis_loop_dup:
  assumes "\<exists>i\<in>set is. i \<noteq> j \<and> px (pts ! i) = px (pts ! j)"
  shows "basis_loop pts j is n d = Inl DuplicateX"
  using assms
  by (induction "is" arbitrary: n d) (auto simp: Let_def)

lemma filter_upt_prod:
  "(\<Prod>i\<leftarrow>filter (\<lambda>i. i \<noteq> j) [0..<k]. g i) = (\<Prod>i\<in>{..<k} - {j}. g i)" for g :: "nat \<Rightarrow> int"
proof -
  have "set (filter (\<lambda>i. i \<noteq> j) [0..<k]) = {..<k} - {j}" by auto
  moreover have "distinct (filter (\<lambda>i. i \<noteq> j) [0..<k])" by simp
  ultimately show ?thesis
    by (metis prod.distinct_set_conv_list)
qed

lemma basis_loop_full:
  assumes "distinct_x pts k" "j < k"
  shows "basis_loop pts j [0..<k] 1 1 = Inr (basis_num pts k j, basis_den pts k j)"
proof -
  have "\<forall>i\<in>set [0..<k]. i \<noteq> j \<longrightarrow> px (pts ! i) \<noteq> px (pts ! j)"
    using assms by (simp add: distinct_x_def)
  then show ?thesis
    by (simp add: basis_loop_ok filter_upt_prod basis_num_def basis_den_def)
qed

lemma basis_den_nonzero:
  assumes "distinct_x pts k" "j < k"
  shows "basis_den pts k j \<noteq> 0"
  using assms by (auto simp: basis_den_def distinct_x_def)

lemma frac_add:
  fixes n1 d1 n2 d2 :: int
  assumes "d1 \<noteq> 0" "d2 \<noteq> 0"
  shows "(of_int (n1 * d2 + n2 * d1) :: rat) / of_int (d1 * d2) = of_int n1 / of_int d1 + of_int n2 / of_int d2"
  using assms by (simp add: add_frac_eq)

lemma frac_same:
  fixes n d num den :: int
  assumes "n * den = num * d" "d \<noteq> 0" "den \<noteq> 0"
  shows "(of_int n :: rat) / of_int d = of_int num / of_int den"
proof -
  have "(of_int n :: rat) * of_int den = of_int num * of_int d"
    using assms(1) by (metis of_int_mult)
  then show ?thesis using assms by (simp add: frac_eq_eq)
qed

lemma terms_loop_ok:
  assumes "distinct_x pts k" "set js \<subseteq> {..<k}" "0 < td"
  shows "\<exists>n d. terms_loop pts k js tn td = Inr (n, d) \<and> 0 < d \<and>
    (of_int n :: rat) / of_int d = of_int tn / of_int td
       + (\<Sum>j\<leftarrow>js. of_int (py (pts ! j) * basis_num pts k j) / of_int (basis_den pts k j))"
  using assms
proof (induction js arbitrary: tn td)
  case Nil
  then show ?case by simp
next
  case (Cons j js)
  from Cons.prems have j: "j < k" and js: "set js \<subseteq> {..<k}"
    by simp_all
  let ?N = "basis_num pts k j" and ?D = "basis_den pts k j" and ?y = "py (pts ! j)"
  have b: "basis_loop pts j [0..<k] 1 1 = Inr (?N, ?D)"
    by (rule basis_loop_full [OF Cons.prems(1) j])
  have D: "?D \<noteq> 0"
    by (rule basis_den_nonzero [OF Cons.prems(1) j])
  obtain tN tD where t: "reduceFraction (?y * ?N) ?D = Inr (tN, tD)" and tD: "0 < tD"
    and tv: "tN * ?D = ?y * ?N * tD"
    using reduceFraction_props [OF D, of "?y * ?N"] by metis
  have nz: "td * tD \<noteq> 0"
    using Cons.prems(3) tD by simp
  obtain nn nd where r: "reduceFraction (tn * tD + tN * td) (td * tD) = Inr (nn, nd)"
    and nd: "0 < nd" and nv: "nn * (td * tD) = (tn * tD + tN * td) * nd"
    using reduceFraction_props [OF nz, of "tn * tD + tN * td"] by metis
  obtain n d where l: "terms_loop pts k js nn nd = Inr (n, d)" and d: "0 < d"
    and v: "(of_int n :: rat) / of_int d = of_int nn / of_int nd
       + (\<Sum>j\<leftarrow>js. of_int (py (pts ! j) * basis_num pts k j) / of_int (basis_den pts k j))"
    using Cons.IH [OF Cons.prems(1) js nd, of nn] by blast
  have "(of_int nn :: rat) / of_int nd = of_int (tn * tD + tN * td) / of_int (td * tD)"
    using nv nd nz by (intro frac_same) simp_all
  also have "\<dots> = of_int tn / of_int td + of_int tN / of_int tD"
    using Cons.prems(3) tD by (intro frac_add) simp_all
  also have "(of_int tN :: rat) / of_int tD = of_int (?y * ?N) / of_int ?D"
    using tv tD D by (intro frac_same) simp_all
  finally have "(of_int nn :: rat) / of_int nd
      = of_int tn / of_int td + of_int (?y * ?N) / of_int ?D" .
  with v have "(of_int n :: rat) / of_int d = of_int tn / of_int td
       + (\<Sum>j\<leftarrow>j # js. of_int (py (pts ! j) * basis_num pts k j) / of_int (basis_den pts k j))"
    by simp
  moreover have "terms_loop pts k (j # js) tn td = Inr (n, d)"
    using b t r l by (simp add: Let_def)
  ultimately show ?case using d by blast
qed

lemma terms_loop_dup:
  assumes "0 < td" "\<exists>j\<in>set js. \<exists>i<k. i \<noteq> j \<and> px (pts ! i) = px (pts ! j)"
  shows "terms_loop pts k js tn td = Inl DuplicateX"
  using assms
proof (induction js arbitrary: tn td)
  case Nil
  then show ?case by simp
next
  case (Cons j js)
  show ?case
  proof (cases "\<exists>i<k. i \<noteq> j \<and> px (pts ! i) = px (pts ! j)")
    case True
    then have "\<exists>i\<in>set [0..<k]. i \<noteq> j \<and> px (pts ! i) = px (pts ! j)"
      by auto
    then have "basis_loop pts j [0..<k] 1 1 = Inl DuplicateX"
      by (rule basis_loop_dup)
    then show ?thesis by simp
  next
    case False
    with Cons.prems(2) have rest: "\<exists>j\<in>set js. \<exists>i<k. i \<noteq> j \<and> px (pts ! i) = px (pts ! j)"
      by auto
    from False have ok: "\<forall>i\<in>set [0..<k]. i \<noteq> j \<longrightarrow> px (pts ! i) \<noteq> px (pts ! j)"
      by auto
    let ?N = "\<Prod>i\<leftarrow>filter (\<lambda>i. i \<noteq> j) [0..<k]. 0 - px (pts ! i)"
    let ?D = "\<Prod>i\<leftarrow>filter (\<lambda>i. i \<noteq> j) [0..<k]. px (pts ! j) - px (pts ! i)"
    have b: "basis_loop pts j [0..<k] 1 1 = Inr (?N, ?D)"
      using basis_loop_ok [OF ok, of 1 1] by simp
    have D: "?D \<noteq> 0"
      using ok by (auto simp: prod_list_zero_iff)
    obtain tN tD where t: "reduceFraction (py (pts ! j) * ?N) ?D = Inr (tN, tD)" and tD: "0 < tD"
      using reduceFraction_props [OF D, of "py (pts ! j) * ?N"] by metis
    have nz: "td * tD \<noteq> 0"
      using Cons.prems(1) tD by simp
    obtain nn nd where r: "reduceFraction (tn * tD + tN * td) (td * tD) = Inr (nn, nd)"
      and nd: "0 < nd"
      using reduceFraction_props [OF nz, of "tn * tD + tN * td"] by metis
    have "terms_loop pts k js nn nd = Inl DuplicateX"
      by (rule Cons.IH [OF nd rest])
    then show ?thesis
      using b t r by (simp add: Let_def)
  qed
qed

lemma compute_dup:
  assumes "0 < k" "k \<le> length pts" "i < k" "j < k" "i \<noteq> j" "px (pts ! i) = px (pts ! j)"
  shows "computeConstantTermFromSelected pts (Integer (int k)) = Inl DuplicateX"
proof -
  have "\<exists>j\<in>set [0..<k]. \<exists>i<k. i \<noteq> j \<and> px (pts ! i) = px (pts ! j)"
    using assms by auto
  then have "terms_loop pts k [0..<k] 0 1 = Inl DuplicateX"
    by (intro terms_loop_dup) simp_all
  then show ?thesis
    using assms by (simp add: computeConstantTermFromSelected_def)
qed

lemma compute_ok:
  assumes "0 < k" "k \<le> length pts" "distinct_x pts k"
  obtains n d where "computeConstantTermFromSelected pts (Integer (int k)) = Inr (n, d)"
    "0 < d" "coprime n d" "(of_int n :: rat) / of_int d = lagrange_at_zero pts k"
proof -
  have s: "set [0..<k] \<subseteq> {..<k}" by auto
  obtain tn td where l: "terms_loop pts k [0..<k] 0 1 = Inr (tn, td)" and td: "0 < td"
    and v: "(of_int tn :: rat) / of_int td = of_int 0 / of_int 1
       + (\<Sum>j\<leftarrow>[0..<k]. of_int (py (pts ! j) * basis_num pts k j) / of_int (basis_den pts k j))"
    using terms_loop_ok [OF assms(3) s zero_less_one, of 0] by blast
  have td0: "td \<noteq> 0" using td by simp
  obtain n d where r: "reduceFraction tn td = Inr (n, d)" and d: "0 < d" and c: "coprime n d"
    and e: "n * td = tn * d"
    using reduceFraction_props [OF td0, of tn] by metis
  have "(of_int n :: rat) / of_int d = of_int tn / of_int td"
    using e d td by (intro frac_same) simp_all
  also have "\<dots> = lagrange_at_zero pts k"
    unfolding v lagrange_at_zero_def
    by (simp add: interv_sum_list_conv_sum_set_nat atLeast0LessThan)
  finally have "(of_int n :: rat) / of_int d = lagrange_at_zero pts k" .
  moreover have "computeConstantTermFromSelected pts (Integer (int k)) = Inr (n, d)"
    using assms l td r by (simp add: computeConstantTermFromSelected_def)
  ultimately show ?thesis using d c that by blast
qed

subsection \<open>Polynomials\<close>

lemma poly_eval_padd: "poly_eval (padd p q) x = poly_eval p x + poly_eval q x"
  by (induction p q rule: padd.induct) (simp_all add: algebra_simps)

lemma length_padd: "length (padd p q) = max (length p) (length q)"
  by (induction p q rule: padd.induct) simp_all

lemma poly_eval_scale: "poly_eval (map (\<lambda>c. a * c) p) x = a * poly_eval p x"
  by (induction p) (simp_all add: algebra_simps)

lemma poly_eval_mul_linear: "poly_eval (mul_linear r p) x = (x - r) * poly_eval p x"
  unfolding mul_linear_def poly_eval_padd poly_eval_scale by (simp add: algebra_simps)

lemma length_mul_linear: "length (mul_linear r p) = Suc (length p)"
  by (simp add: mul_linear_def length_padd)

lemma poly_eval_roots:
  "poly_eval (foldr mul_linear rs [1]) x = (\<Prod>r\<leftarrow>rs. x - r)"
  by (induction rs) (simp_all add: poly_eval_mul_linear)

lemma length_roots: "length (foldr mul_linear rs [1::'a::comm_ring_1]) = Suc (length rs)"
  by (induction rs) (simp_all add: length_mul_linear)

lemma poly_eval_sum:
  "poly_eval (foldr padd ps z) x = (\<Sum>p\<leftarrow>ps. poly_eval p x) + poly_eval z x"
  by (induction ps) (simp_all add: poly_eval_padd)

lemma length_sum:
  "\<forall>p\<in>set ps. length p = n \<Longrightarrow> length z = n \<Longrightarrow> length (foldr padd ps z) = n"
  by (induction ps) (simp_all add: length_padd)

lemma poly_eval_replicate_0: "poly_eval (replicate n 0) x = 0"
  by (induction n) simp_all

lemma pquot_eval:
  "poly_eval cs x = poly_eval cs a + (x - a) * poly_eval (pquot a cs) x"
proof (induction a cs rule: pquot.induct)
  case (3 a c c' cs)
  define E where "E = poly_eval (c' # cs) x"
  define A where "A = poly_eval (c' # cs) a"
  define Q where "Q = poly_eval (pquot a (c' # cs)) x"
  have IH: "E = A + (x - a) * Q"
    unfolding E_def A_def Q_def by (rule "3.IH")
  have "poly_eval (c # c' # cs) x = c + x * E"
    by (simp add: E_def)
  moreover have "poly_eval (c # c' # cs) a = c + a * A"
    by (simp add: A_def)
  moreover have "poly_eval (pquot a (c # c' # cs)) x = A + x * Q"
    by (simp add: A_def Q_def)
  ultimately show ?case
    by (simp only: IH) (simp add: algebra_simps)
qed simp_all

lemma length_pquot: "length (pquot a cs) = length cs - 1"
  by (induction a cs rule: pquot.induct) simp_all

lemma pquot_zero:
  "\<forall>c\<in>set (pquot a cs). c = 0 \<Longrightarrow> poly_eval cs a = 0 \<Longrightarrow> \<forall>c\<in>set cs. c = 0"
  by (induction a cs rule: pquot.induct) simp_all

lemma roots_zero:
  fixes cs :: "'a::idom list"
  assumes "distinct rs" "length cs \<le> length rs" "\<forall>r\<in>set rs. poly_eval cs r = 0"
  shows "\<forall>c\<in>set cs. c = 0"
  using assms
proof (induction rs arbitrary: cs)
  case Nil
  then show ?case by simp
next
  case (Cons a rs)
  have "\<forall>r\<in>set rs. poly_eval (pquot a cs) r = 0"
  proof
    fix r assume r: "r \<in> set rs"
    with Cons.prems have "poly_eval cs r = 0" "poly_eval cs a = 0" "r \<noteq> a"
      by auto
    with pquot_eval [of cs r a] show "poly_eval (pquot a cs) r = 0"
      by simp
  qed
  moreover have "length (pquot a cs) \<le> length rs"
    using Cons.prems(2) by (simp add: length_pquot)
  moreover have "distinct rs" using Cons.prems(1) by simp
  ultimately have "\<forall>c\<in>set (pquot a cs). c = 0"
    using Cons.IH [of "pquot a cs"] by blast
  moreover have "poly_eval cs a = 0" using Cons.prems(3) by simp
  ultimately show ?case by (rule pquot_zero)
qed

lemma poly_eval_diff:
  "length p = length q \<Longrightarrow> poly_eval (map2 (-) p q) x = poly_eval p x - poly_eval q x"
proof (induction p q rule: list_induct2)
  case Nil
  show ?case by simp
next
  case (Cons a p b q)
  have "poly_eval (map2 (-) (a # p) (b # q)) x = (a - b) + x * poly_eval (map2 (-) p q) x"
    by simp
  also have "\<dots> = (a - b) + x * (poly_eval p x - poly_eval q x)"
    by (simp only: Cons.IH)
  also have "\<dots> = poly_eval (a # p) x - poly_eval (b # q) x"
    by (simp add: algebra_simps)
  finally show ?case .
qed

lemma map2_diff_zero:
  "length p = length q \<Longrightarrow> \<forall>c\<in>set (map2 (-) p q). c = 0 \<Longrightarrow> p = q" for p :: "'a::comm_ring_1 list"
  by (induction p q rule: list_induct2) simp_all

lemma interpolation_unique:
  fixes p q :: "'a::idom list"
  assumes "distinct rs" "length p = length rs" "length q = length rs"
    "\<forall>r\<in>set rs. poly_eval p r = poly_eval q r"
  shows "p = q"
proof -
  have "\<forall>c\<in>set (map2 (-) p q). c = 0"
    using assms by (intro roots_zero [of rs]) (simp_all add: poly_eval_diff)
  with assms show ?thesis by (intro map2_diff_zero) simp_all
qed

subsection \<open>The Lagrange polynomial\<close>

lemma distinct_x_of_distinct: "distinct (map px pts) \<Longrightarrow> distinct_x pts (length pts)"
  by (auto simp: distinct_x_def distinct_conv_nth)

lemma filter_upt_prod_list:
  "(\<Prod>i\<leftarrow>filter (\<lambda>i. i \<noteq> j) [0..<k]. g i) = (\<Prod>i\<in>{..<k} - {j}. g i)"
  for g :: "nat \<Rightarrow> 'a::comm_monoid_mult"
proof -
  have "set (filter (\<lambda>i. i \<noteq> j) [0..<k]) = {..<k} - {j}" by auto
  moreover have "distinct (filter (\<lambda>i. i \<noteq> j) [0..<k])" by simp
  ultimately show ?thesis
    by (metis prod.distinct_set_conv_list)
qed

lemma length_filter_upt: "j < k \<Longrightarrow> length (filter (\<lambda>i. i \<noteq> j) [0..<k]) = k - 1"
proof -
  assume j: "j < k"
  have "length (filter (\<lambda>i. i \<noteq> j) [0..<k]) = card (set (filter (\<lambda>i. i \<noteq> j) [0..<k]))"
    by (rule distinct_card [symmetric]) simp
  also have "set (filter (\<lambda>i. i \<noteq> j) [0..<k]) = {..<k} - {j}" by auto
  also have "card ({..<k} - {j}) = k - 1" using j by simp
  finally show ?thesis .
qed

lemma poly_eval_lagrange:
  "poly_eval (lagrange_coeffs pts) t =
     (\<Sum>j<length pts. of_int (py (pts ! j)) / of_int (basis_den pts (length pts) j)
        * (\<Prod>i\<in>{..<length pts} - {j}. t - of_int (px (pts ! i))))"
proof -
  have "poly_eval (lagrange_coeffs pts) t =
     (\<Sum>j\<leftarrow>[0..<length pts]. of_int (py (pts ! j)) / of_int (basis_den pts (length pts) j)
        * (\<Prod>i\<leftarrow>filter (\<lambda>i. i \<noteq> j) [0..<length pts]. t - of_int (px (pts ! i))))"
    unfolding lagrange_coeffs_def Let_def poly_eval_sum poly_eval_replicate_0
    by (simp add: o_def poly_eval_scale poly_eval_roots)
  then show ?thesis
    by (simp only: filter_upt_prod_list interv_sum_list_conv_sum_set_nat set_upt atLeast0LessThan)
qed

lemma length_lagrange: "length (lagrange_coeffs pts) = length pts"
  unfolding lagrange_coeffs_def Let_def
  by (rule length_sum) (auto simp: length_roots length_filter_upt)

lemma lagrange_zero:
  "poly_eval (lagrange_coeffs pts) 0 = lagrange_at_zero pts (length pts)"
  unfolding poly_eval_lagrange lagrange_at_zero_def basis_num_def
  by (rule sum.cong) (simp_all add: of_int_prod)

lemma lagrange_node:
  assumes "distinct (map px pts)" "m < length pts"
  shows "poly_eval (lagrange_coeffs pts) (of_int (px (pts ! m))) = of_int (py (pts ! m))"
proof -
  let ?k = "length pts"
  let ?X = "\<lambda>i. (of_int (px (pts ! i)) :: rat)"
  let ?f = "\<lambda>j. of_int (py (pts ! j)) / of_int (basis_den pts ?k j)
        * (\<Prod>i\<in>{..<?k} - {j}. ?X m - ?X i)"
  have dx: "distinct_x pts ?k"
    by (rule distinct_x_of_distinct [OF assms(1)])
  have other: "?f j = 0" if "j < ?k" "j \<noteq> m" for j
  proof -
    have "m \<in> {..<?k} - {j}" using assms(2) that by simp
    moreover have "?X m - ?X m = 0" by simp
    ultimately have "(\<Prod>i\<in>{..<?k} - {j}. ?X m - ?X i) = 0"
      by (intro prod_zero) auto
    then show ?thesis by simp
  qed
  have self: "?f m = of_int (py (pts ! m))"
  proof -
    have "(\<Prod>i\<in>{..<?k} - {m}. ?X m - ?X i) = of_int (basis_den pts ?k m)"
      by (simp add: basis_den_def of_int_prod)
    moreover have "basis_den pts ?k m \<noteq> 0"
      by (rule basis_den_nonzero [OF dx assms(2)])
    ultimately show ?thesis by simp
  qed
  have "poly_eval (lagrange_coeffs pts) (?X m) = (\<Sum>j<?k. ?f j)"
    by (rule poly_eval_lagrange)
  also have "\<dots> = (\<Sum>j<?k. if j = m then of_int (py (pts ! m)) else 0)"
  proof (rule sum.cong)
    fix j assume j: "j \<in> {..<?k}"
    show "?f j = (if j = m then of_int (py (pts ! m)) else 0)"
    proof (cases "j = m")
      case True
      show ?thesis unfolding True using self by simp
    next
      case False
      then have "?f j = 0" using j by (intro other) simp_all
      with False show ?thesis by (simp only: if_False)
    qed
  qed (rule refl)
  also have "\<dots> = of_int (py (pts ! m))"
    using assms(2) by simp
  finally show ?thesis .
qed

lemma lagrange_interpolates:
  assumes "distinct (map px pts)"
  shows "interpolates (lagrange_coeffs pts) pts"
  unfolding interpolates_def
proof
  fix p assume "p \<in> set pts"
  then obtain m where "m < length pts" "p = pts ! m"
    by (auto simp: in_set_conv_nth)
  then show "poly_eval (lagrange_coeffs pts) (of_int (px p)) = of_int (py p)"
    using lagrange_node [OF assms] by simp
qed

lemma interpolates_unique:
  assumes "distinct (map px pts)" "length cs = length pts" "interpolates cs pts"
  shows "cs = lagrange_coeffs pts"
proof (rule interpolation_unique [of "map (\<lambda>p. of_int (px p)) pts"])
  have "inj (of_int :: int \<Rightarrow> rat)" by (simp add: inj_on_def)
  then have "distinct (map (of_int :: int \<Rightarrow> rat) (map px pts))"
    using assms(1) by (simp only: distinct_map) (auto intro: inj_on_subset)
  then show "distinct (map (\<lambda>p. (of_int (px p) :: rat)) pts)"
    by (simp add: o_def)
  show "length cs = length (map (\<lambda>p. (of_int (px p) :: rat)) pts)"
    using assms(2) by simp
  show "length (lagrange_coeffs pts) = length (map (\<lambda>p. (of_int (px p) :: rat)) pts)"
    by (simp add: length_lagrange)
  show "\<forall>r\<in>set (map (\<lambda>p. (of_int (px p) :: rat)) pts). poly_eval cs r = poly_eval (lagrange_coeffs pts) r"
    using assms(3) lagrange_interpolates [OF assms(1)] by (auto simp: interpolates_def)
qed

lemma poly_eval_of_int:
  "poly_eval (map of_int cs) (of_int x) = (of_int (poly_eval cs x) :: rat)"
  by (induction cs) simp_all

lemma reduced_integer:
  fixes n d c :: int
  assumes "0 < d" "coprime n d" "(of_int n :: rat) / of_int d = of_int c"
  shows "n = c \<and> d = 1"
proof -
  have "(of_int n :: rat) = of_int (c * d)"
    using assms(1,3) by (simp add: field_simps)
  then have n: "n = c * d" by (simp only: of_int_eq_iff)
  then have "d dvd n" by simp
  with assms(2) have "is_unit d"
    by (metis coprime_absorb_right coprime_commute dvd_refl coprime_common_divisor)
  with assms(1) have "d = 1" by simp
  with n show ?thesis by simp
qed

lemma compute_lagrange:
  assumes "pts \<noteq> []" "distinct (map px pts)"
  obtains n d where "computeConstantTermFromSelected pts (Integer (int (length pts))) = Inr (n, d)"
    "0 < d" "coprime n d" "(of_int n :: rat) / of_int d = poly_eval (lagrange_coeffs pts) 0"
proof -
  have "0 < length pts" using assms(1) by simp
  then show ?thesis
    using compute_ok [OF _ le_refl distinct_x_of_distinct [OF assms(2)]] that
    by (metis lagrange_zero)
qed

subsection \<open>Interpolation\<close>

text \<open>
  Claim C1. For a non-empty list of points with pairwise distinct \<open>x\<close>, taken with
  \<open>k\<close> the number of points, \<open>computeConstantTermFromSelected\<close> returns a pair \<open>(n, d)\<close>
  with \<open>d > 0\<close> and \<open>n\<close>, \<open>d\<close> coprime; there is exactly one polynomial with \<open>k\<close>
  rational coefficients (degree at most \<open>k - 1\<close>) through the points, and \<open>n / d\<close> is its
  value at 0, its constant term. When a polynomial with \<open>k\<close> integer coefficients
  passes through the points, the result is its constant term over 1.
\<close>

theorem computeConstantTermFromSelected_interpolation:
  "pts \<noteq> [] \<and> distinct (map px pts) \<longrightarrow>
     (\<exists>n d cs. computeConstantTermFromSelected pts (Integer (int (length pts))) = Inr (n, d)
        \<and> 0 < d \<and> coprime n d
        \<and> length cs = length pts \<and> interpolates cs pts
        \<and> (\<forall>cs'. length cs' = length pts \<and> interpolates cs' pts \<longrightarrow> cs' = cs)
        \<and> of_int n / of_int d = poly_eval cs 0 \<and> poly_eval cs 0 = hd cs)
     \<and> (\<forall>ics. length ics = length pts \<and> (\<forall>p\<in>set pts. poly_eval ics (px p) = py p) \<longrightarrow>
          computeConstantTermFromSelected pts (Integer (int (length pts))) = Inr (hd ics, 1))"
proof (intro impI conjI allI)
  assume a: "pts \<noteq> [] \<and> distinct (map px pts)"
  then have ne: "pts \<noteq> []" and dist: "distinct (map px pts)"
    by simp_all
  obtain n d where r: "computeConstantTermFromSelected pts (Integer (int (length pts))) = Inr (n, d)"
    and d: "0 < d" and c: "coprime n d"
    and v: "(of_int n :: rat) / of_int d = poly_eval (lagrange_coeffs pts) 0"
    by (rule compute_lagrange [OF ne dist])
  let ?cs = "lagrange_coeffs pts"
  have len: "length ?cs = length pts"
    by (rule length_lagrange)
  have int: "interpolates ?cs pts"
    by (rule lagrange_interpolates [OF dist])
  have uniq: "\<forall>cs'. length cs' = length pts \<and> interpolates cs' pts \<longrightarrow> cs' = ?cs"
    using interpolates_unique [OF dist] by blast
  have hd: "poly_eval ?cs 0 = hd ?cs"
    using len ne by (cases ?cs) simp_all
  show "\<exists>n d cs. computeConstantTermFromSelected pts (Integer (int (length pts))) = Inr (n, d)
        \<and> 0 < d \<and> coprime n d
        \<and> length cs = length pts \<and> interpolates cs pts
        \<and> (\<forall>cs'. length cs' = length pts \<and> interpolates cs' pts \<longrightarrow> cs' = cs)
        \<and> of_int n / of_int d = poly_eval cs 0 \<and> poly_eval cs 0 = hd cs"
    by (intro exI [of _ n] exI [of _ d] exI [of _ ?cs] conjI) (fact r d c len int uniq v hd)+
  fix ics :: "int list"
  assume i: "length ics = length pts \<and> (\<forall>p\<in>set pts. poly_eval ics (px p) = py p)"
  then have "interpolates (map of_int ics) pts"
    by (simp add: interpolates_def poly_eval_of_int)
  moreover have "length (map rat_of_int ics) = length pts"
    using i by simp
  ultimately have e: "map of_int ics = ?cs"
    by (rule interpolates_unique [OF dist, rotated])
  have "ics \<noteq> []" using i ne by auto
  then have "poly_eval (map rat_of_int ics) 0 = of_int (hd ics)"
    by (cases ics) simp_all
  with v e have "(of_int n :: rat) / of_int d = of_int (hd ics)"
    by simp
  with d c have "n = hd ics \<and> d = 1"
    by (rule reduced_integer)
  with r show "computeConstantTermFromSelected pts (Integer (int (length pts))) = Inr (hd ics, 1)"
    by simp
qed

theorem computeConstantTermFromSelected_interpolation_witness:
  "distinct (map px [\<lparr>px = 1, py = 3\<rparr>, \<lparr>px = 2, py = 6\<rparr>, \<lparr>px = 3, py = 11\<rparr>])
   \<and> poly_eval [2, 0, 1] (1::int) = 3 \<and> poly_eval [2, 0, 1] (2::int) = 6
   \<and> poly_eval [2, 0, 1] (3::int) = 11
   \<and> computeConstantTermFromSelected
        [\<lparr>px = 1, py = 3\<rparr>, \<lparr>px = 2, py = 6\<rparr>, \<lparr>px = 3, py = 11\<rparr>] (Integer 3) = Inr (2, 1)"
proof -
  let ?P = "[\<lparr>px = 1, py = 3\<rparr>, \<lparr>px = 2, py = 6\<rparr>, \<lparr>px = 3, py = 11\<rparr>]"
  have "\<forall>ics. length ics = length ?P \<and> (\<forall>p\<in>set ?P. poly_eval ics (px p) = py p) \<longrightarrow>
      computeConstantTermFromSelected ?P (Integer (int (length ?P))) = Inr (hd ics, 1)"
    using computeConstantTermFromSelected_interpolation [of ?P] by simp
  from this [rule_format, of "[2, 0, 1]"] show ?thesis by simp
qed

section \<open>Properties of the point set builder\<close>

subsection \<open>The member loops, the sort and the scan\<close>

lemma points_loop_String_step:
  "points_loop_String (m # rest) pts =
     (case member_point_String m of
        Inl e \<Rightarrow> Inl e
      | Inr None \<Rightarrow> points_loop_String rest pts
      | Inr (Some p) \<Rightarrow> points_loop_String rest (pts @ [p]))"
  by (cases m) (simp add: member_point_String_def split: option.splits sum.splits)

lemma points_loop_File_step:
  "points_loop_File (m # rest) pts =
     (case member_point_File m of
        Inl e \<Rightarrow> Inl e
      | Inr None \<Rightarrow> points_loop_File rest pts
      | Inr (Some p) \<Rightarrow> points_loop_File rest (pts @ [p]))"
  by (cases m) (simp add: member_point_File_def split: option.splits sum.splits jsvalue.splits)

lemma points_loop_String_Inr:
  "points_loop_String ms pts = Inr out \<longleftrightarrow>
     (\<forall>m\<in>set ms. \<exists>r. member_point_String m = Inr r)
     \<and> out = pts @ concat (map (pushed member_point_String) ms)"
proof (induction ms arbitrary: pts)
  case Nil
  show ?case by auto
next
  case (Cons m ms)
  show ?case
    unfolding points_loop_String_step
    by (cases "member_point_String m")
       (auto simp: Cons.IH pushed_def split: option.splits)
qed

lemma points_loop_File_Inr:
  "points_loop_File ms pts = Inr out \<longleftrightarrow>
     (\<forall>m\<in>set ms. \<exists>r. member_point_File m = Inr r)
     \<and> out = pts @ concat (map (pushed member_point_File) ms)"
proof (induction ms arbitrary: pts)
  case Nil
  show ?case by auto
next
  case (Cons m ms)
  show ?case
    unfolding points_loop_File_step
    by (cases "member_point_File m")
       (auto simp: Cons.IH pushed_def split: option.splits)
qed

lemma mset_concat_map:
  "mset xs = mset ys \<Longrightarrow> mset (concat (map g xs)) = mset (concat (map g ys))"
proof -
  assume e: "mset xs = mset ys"
  have "mset (concat (map g zs)) = (\<Sum>z\<in>#mset zs. mset (g z))" for zs :: "'a list"
    by (induction zs) simp_all
  with e show ?thesis by simp
qed

lemma points_loop_String_perm:
  assumes "points_loop_String ms [] = Inr pts" "mset ms' = mset ms"
  obtains pts' where "points_loop_String ms' [] = Inr pts'" "mset pts' = mset pts"
proof -
  from assms(2) have "set ms' = set ms" by (rule mset_eq_setD)
  with assms(1) have "points_loop_String ms' [] = Inr (concat (map (pushed member_point_String) ms'))"
    by (simp add: points_loop_String_Inr)
  moreover have "mset (concat (map (pushed member_point_String) ms')) = mset pts"
    using assms mset_concat_map [OF assms(2)] by (simp add: points_loop_String_Inr)
  ultimately show ?thesis using that by blast
qed

lemma points_loop_File_perm:
  assumes "points_loop_File ms [] = Inr pts" "mset ms' = mset ms"
  obtains pts' where "points_loop_File ms' [] = Inr pts'" "mset pts' = mset pts"
proof -
  from assms(2) have "set ms' = set ms" by (rule mset_eq_setD)
  with assms(1) have "points_loop_File ms' [] = Inr (concat (map (pushed member_point_File) ms'))"
    by (simp add: points_loop_File_Inr)
  moreover have "mset (concat (map (pushed member_point_File) ms')) = mset pts"
    using assms mset_concat_map [OF assms(2)] by (simp add: points_loop_File_Inr)
  ultimately show ?thesis using that by blast
qed

lemma adjacent_duplicate_iff:
  "sorted (map px ps) \<Longrightarrow> adjacent_duplicate ps \<longleftrightarrow> \<not> distinct (map px ps)"
proof (induction ps rule: adjacent_duplicate.induct)
  case (1 p q rest)
  then have s: "sorted (map px (q # rest))" and le: "px p \<le> px q"
    and all: "\<forall>r\<in>set rest. px q \<le> px r"
    by auto
  have "px p \<in> set (map px (q # rest)) \<longleftrightarrow> px q = px p"
    using le all by force
  with "1.IH" [OF s] show ?case by auto
qed simp_all

lemma sorted_selected: "sorted (map px (take k (sort_key px pts)))"
  by (simp add: take_map [symmetric])

lemma selected_perm:
  assumes m: "mset pts' = mset pts"
    and d: "distinct (map px (take k (sort_key px pts)))"
    and b: "\<forall>p\<in>set (drop k (sort_key px pts)). px p \<notin> px ` set (take k (sort_key px pts))"
  shows "take k (sort_key px pts') = take k (sort_key px pts)"
proof -
  let ?S = "sort_key px pts" and ?S' = "sort_key px pts'"
  have "sort (map px pts) = map px ?S"
    by (rule properties_for_sort) simp_all
  moreover have "sort (map px pts) = map px ?S'"
    using m by (intro properties_for_sort) simp_all
  ultimately have "map px ?S' = map px ?S"
    by simp
  then have "take k (map px ?S') = take k (map px ?S)"
    by (rule arg_cong)
  then have keys: "map px (take k ?S') = map px (take k ?S)"
    by (simp only: take_map)
  have sub: "set (take k ?S') \<subseteq> set (take k ?S)"
  proof
    fix p assume p: "p \<in> set (take k ?S')"
    then have "px p \<in> px ` set (take k ?S)"
      using keys by (metis image_eqI list.set_map)
    moreover have "p \<in> set ?S"
      using p m by (metis in_set_takeD mset_eq_setD set_sort)
    then have "p \<in> set (take k ?S) \<or> p \<in> set (drop k ?S)"
      by (metis Un_iff append_take_drop_id set_append)
    ultimately show "p \<in> set (take k ?S)"
      using b by blast
  qed
  have "inj_on px (set (take k ?S))"
    using d by (simp add: distinct_map)
  then have "inj_on px (set (take k ?S') \<union> set (take k ?S))"
    using sub by (simp add: Un_absorb1)
  then show ?thesis
    using keys by (simp add: inj_on_map_eq_map)
qed

lemma select_dup:
  assumes "k \<le> int (length pts)" "\<not> distinct (map px (take (nat k) (sort_key px pts)))"
  shows "select_and_compute pts k = Inl DuplicateX"
  using assms by (simp add: select_and_compute_def Let_def adjacent_duplicate_iff sorted_selected)

lemma select_perm:
  assumes m: "mset pts' = mset pts"
    and r: "select_and_compute pts k = Inr res"
    and b: "\<forall>p\<in>set (drop (nat k) (sort_key px pts)). px p \<notin> px ` set (take (nat k) (sort_key px pts))"
  shows "select_and_compute pts' k = Inr res"
    and "take (nat k) (sort_key px pts') = take (nat k) (sort_key px pts)"
proof -
  have len: "length pts' = length pts"
    using m by (rule mset_eq_length)
  have "\<not> adjacent_duplicate (take (nat k) (sort_key px pts))"
    using r by (auto simp: select_and_compute_def Let_def split: if_splits)
  then have d: "distinct (map px (take (nat k) (sort_key px pts)))"
    by (simp add: adjacent_duplicate_iff sorted_selected)
  show t: "take (nat k) (sort_key px pts') = take (nat k) (sort_key px pts)"
    by (rule selected_perm [OF m d b])
  have "select_and_compute pts' k = select_and_compute pts k"
    unfolding select_and_compute_def len t ..
  with r show "select_and_compute pts' k = Inr res"
    by simp
qed

lemma find_String_unfold:
  assumes "keys_k r = Some (Integer k)" "0 < k" "points_loop_String (members r) [] = Inr pts"
  shows "findConstantTermFromString r = select_and_compute pts k"
  using assms by (simp add: findConstantTermFromString_def)

lemma find_File_unfold:
  assumes "keys_k r = Some (Integer k)" "0 < k" "points_loop_File (members r) [] = Inr pts"
  shows "findConstantTermFromFile r = select_and_compute pts k"
  using assms by (simp add: findConstantTermFromFile_def)

lemma find_String_positive:
  assumes "keys_k r = Some (Integer k)" "findConstantTermFromString r = Inr res"
  shows "0 < k"
  using assms by (auto simp: findConstantTermFromString_def split: if_splits)

lemma find_File_positive:
  assumes "keys_k r = Some (Integer k)" "findConstantTermFromFile r = Inr res"
  shows "0 < k"
  using assms by (auto simp: findConstantTermFromFile_def split: if_splits)

lemma parse_5: "parseBigIntFromString (lit ''5'') (Integer 10) = Inr 5"
  using parse_plain(1) [of 10 "lit ''5''"]
  by (simp add: lit_simps valid_digit_eval digit_value_eval)

lemma parse_7: "parseBigIntFromString (lit ''7'') (Integer 10) = Inr 7"
  using parse_plain(1) [of 10 "lit ''7''"]
  by (simp add: lit_simps valid_digit_eval digit_value_eval)

lemma key_01: "lit ''01'' \<noteq> lit ''keys''" "isPointKey (lit ''01'')" "BigInt (lit ''01'') = 1"
  by (simp_all add: lit_simps isPointKey_def BigInt_def)

lemma key_001: "lit ''001'' \<noteq> lit ''keys''" "isPointKey (lit ''001'')" "BigInt (lit ''001'') = 1"
  by (simp_all add: lit_simps isPointKey_def BigInt_def)

lemma key_1: "lit ''1'' \<noteq> lit ''keys''" "isPointKey (lit ''1'')" "BigInt (lit ''1'') = 1"
  by (simp_all add: lit_simps isPointKey_def BigInt_def)

lemma key_2: "lit ''2'' \<noteq> lit ''keys''" "isPointKey (lit ''2'')" "BigInt (lit ''2'') = 2"
  by (simp_all add: lit_simps isPointKey_def BigInt_def)

lemma compute_single: "computeConstantTermFromSelected [\<lparr>px = a, py = b\<rparr>] (Integer 1) = Inr (b, 1)"
  by (simp add: computeConstantTermFromSelected_def reduceFraction_eq)

text \<open>
  Claim C3. Called with \<open>k\<close> points of which two, at different indices, have the same
  \<open>x\<close>, the evaluator fails with \<open>DuplicateX\<close>. In both builders, when the points of the
  record are collected and are at least \<open>k\<close>, and two of the \<open>k\<close> points selected after
  the ascending sort have the same \<open>x\<close>, the computation fails with \<open>DuplicateX\<close>. The scan
  of adjacent pairs finds a duplicate in a sorted list exactly when the list has one.
\<close>

theorem duplicate_x_rejected:
  "(0 < k \<and> k \<le> length sel \<and> i < k \<and> j < k \<and> i \<noteq> j \<and> px (sel ! i) = px (sel ! j) \<longrightarrow>
      computeConstantTermFromSelected sel (Integer (int k)) = Inl DuplicateX)
   \<and> (keys_k r = Some (Integer n) \<and> 0 < n \<and> n \<le> int (length pts)
        \<and> \<not> distinct (map px (take (nat n) (sort_key px pts))) \<longrightarrow>
        (points_loop_String (members r) [] = Inr pts \<longrightarrow>
           findConstantTermFromString r = Inl DuplicateX)
      \<and> (points_loop_File (members r) [] = Inr pts \<longrightarrow>
           findConstantTermFromFile r = Inl DuplicateX))
   \<and> (sorted (map px ps) \<longrightarrow> (adjacent_duplicate ps \<longleftrightarrow> \<not> distinct (map px ps)))"
proof (intro conjI impI)
  assume "0 < k \<and> k \<le> length sel \<and> i < k \<and> j < k \<and> i \<noteq> j \<and> px (sel ! i) = px (sel ! j)"
  then show "computeConstantTermFromSelected sel (Integer (int k)) = Inl DuplicateX"
    by (intro compute_dup [of k sel i j]) simp_all
next
  assume a: "keys_k r = Some (Integer n) \<and> 0 < n \<and> n \<le> int (length pts)
        \<and> \<not> distinct (map px (take (nat n) (sort_key px pts)))"
  then have d: "select_and_compute pts n = Inl DuplicateX"
    by (intro select_dup) simp_all
  {
    assume "points_loop_String (members r) [] = Inr pts"
    with a d show "findConstantTermFromString r = Inl DuplicateX"
      by (simp add: find_String_unfold)
  }
  {
    assume "points_loop_File (members r) [] = Inr pts"
    with a d show "findConstantTermFromFile r = Inl DuplicateX"
      by (simp add: find_File_unfold)
  }
next
  assume "sorted (map px ps)"
  then show "adjacent_duplicate ps \<longleftrightarrow> \<not> distinct (map px ps)"
    by (rule adjacent_duplicate_iff)
qed

theorem duplicate_x_rejected_witness:
  "computeConstantTermFromSelected
     [\<lparr>px = 1, py = 3\<rparr>, \<lparr>px = 2, py = 6\<rparr>, \<lparr>px = 2, py = 11\<rparr>] (Integer 3) = Inl DuplicateX
   \<and> findConstantTermFromString \<lparr>keys_k = Some (Integer 2), members =
       [(lit ''01'', Some \<lparr>entry_base = Some (Integer 10), entry_value = String (lit ''5'')\<rparr>),
        (lit ''001'', Some \<lparr>entry_base = Some (Integer 10), entry_value = String (lit ''7'')\<rparr>)]\<rparr>
       = Inl DuplicateX
   \<and> findConstantTermFromFile \<lparr>keys_k = Some (Integer 2), members =
       [(lit ''01'', Some \<lparr>entry_base = Some (Integer 10), entry_value = String (lit ''5'')\<rparr>),
        (lit ''001'', Some \<lparr>entry_base = Some (Integer 10), entry_value = String (lit ''7'')\<rparr>)]\<rparr>
       = Inl DuplicateX
   \<and> adjacent_duplicate [\<lparr>px = 1, py = 5\<rparr>, \<lparr>px = 1, py = 7\<rparr>]"
proof -
  let ?r = "\<lparr>keys_k = Some (Integer 2), members =
       [(lit ''01'', Some \<lparr>entry_base = Some (Integer 10), entry_value = String (lit ''5'')\<rparr>),
        (lit ''001'', Some \<lparr>entry_base = Some (Integer 10), entry_value = String (lit ''7'')\<rparr>)]\<rparr>"
  let ?pts = "[\<lparr>px = 1, py = 5\<rparr>, \<lparr>px = 1, py = 7\<rparr>]"
  have s: "points_loop_String (members ?r) [] = Inr ?pts"
    by (simp add: key_01 key_001 valueStr_of_def parse_5 parse_7)
  have f: "points_loop_File (members ?r) [] = Inr ?pts"
    by (simp add: key_01 key_001 parse_5 parse_7)
  show ?thesis
    using duplicate_x_rejected
      [of 3 "[\<lparr>px = 1, py = 3\<rparr>, \<lparr>px = 2, py = 6\<rparr>, \<lparr>px = 2, py = 11\<rparr>]" 1 2 ?r 2 ?pts ?pts]
      s f
    by simp
qed

text \<open>
  Claim C4, as the code has it. Take a record on which the computation succeeds, and in
  which no point left out of the selection has the \<open>x\<close> of a selected point (so, for
  one, any record whose points have pairwise distinct \<open>x\<close>). Then for every record with
  the same \<open>k\<close> and the same members in another order the selected points and the result
  are the same. This holds for both builders.
\<close>

theorem selection_order_independent:
  "(mset (members r') = mset (members r) \<and> keys_k r' = keys_k r \<and> keys_k r = Some (Integer k)
      \<and> (\<forall>p\<in>set (drop (nat k) (sort_key px pts)).
            px p \<notin> px ` set (take (nat k) (sort_key px pts))) \<longrightarrow>
      (points_loop_String (members r) [] = Inr pts \<and> findConstantTermFromString r = Inr res \<longrightarrow>
         findConstantTermFromString r' = Inr res
         \<and> (\<exists>pts'. points_loop_String (members r') [] = Inr pts'
               \<and> take (nat k) (sort_key px pts') = take (nat k) (sort_key px pts)))
    \<and> (points_loop_File (members r) [] = Inr pts \<and> findConstantTermFromFile r = Inr res \<longrightarrow>
         findConstantTermFromFile r' = Inr res
         \<and> (\<exists>pts'. points_loop_File (members r') [] = Inr pts'
               \<and> take (nat k) (sort_key px pts') = take (nat k) (sort_key px pts))))"
proof (intro conjI impI)
  assume a: "mset (members r') = mset (members r) \<and> keys_k r' = keys_k r \<and> keys_k r = Some (Integer k)
      \<and> (\<forall>p\<in>set (drop (nat k) (sort_key px pts)).
            px p \<notin> px ` set (take (nat k) (sort_key px pts)))"
  then have m: "mset (members r') = mset (members r)" and k: "keys_k r = Some (Integer k)"
    and k': "keys_k r' = Some (Integer k)"
    and b: "\<forall>p\<in>set (drop (nat k) (sort_key px pts)).
            px p \<notin> px ` set (take (nat k) (sort_key px pts))"
    by simp_all
  {
    assume s: "points_loop_String (members r) [] = Inr pts \<and> findConstantTermFromString r = Inr res"
    then have pos: "0 < k" using k by (intro find_String_positive [of r k res]) simp_all
    obtain pts' where p': "points_loop_String (members r') [] = Inr pts'" and mp: "mset pts' = mset pts"
      using points_loop_String_perm [OF _ m] s by blast
    have sel: "select_and_compute pts k = Inr res"
      using s find_String_unfold [OF k pos] by simp
    have t: "take (nat k) (sort_key px pts') = take (nat k) (sort_key px pts)"
      by (rule select_perm(2) [OF mp sel b])
    show "findConstantTermFromString r' = Inr res"
      using select_perm(1) [OF mp sel b] find_String_unfold [OF k' pos p'] by simp
    show "\<exists>pts'. points_loop_String (members r') [] = Inr pts'
               \<and> take (nat k) (sort_key px pts') = take (nat k) (sort_key px pts)"
      using p' t by blast
  }
  {
    assume s: "points_loop_File (members r) [] = Inr pts \<and> findConstantTermFromFile r = Inr res"
    then have pos: "0 < k" using k by (intro find_File_positive [of r k res]) simp_all
    obtain pts' where p': "points_loop_File (members r') [] = Inr pts'" and mp: "mset pts' = mset pts"
      using points_loop_File_perm [OF _ m] s by blast
    have sel: "select_and_compute pts k = Inr res"
      using s find_File_unfold [OF k pos] by simp
    have t: "take (nat k) (sort_key px pts') = take (nat k) (sort_key px pts)"
      by (rule select_perm(2) [OF mp sel b])
    show "findConstantTermFromFile r' = Inr res"
      using select_perm(1) [OF mp sel b] find_File_unfold [OF k' pos p'] by simp
    show "\<exists>pts'. points_loop_File (members r') [] = Inr pts'
               \<and> take (nat k) (sort_key px pts') = take (nat k) (sort_key px pts)"
      using p' t by blast
  }
qed

theorem selection_order_independent_witness:
  "findConstantTermFromString \<lparr>keys_k = Some (Integer 1), members =
       [(lit ''1'', Some \<lparr>entry_base = Some (Integer 10), entry_value = String (lit ''5'')\<rparr>),
        (lit ''2'', Some \<lparr>entry_base = Some (Integer 10), entry_value = String (lit ''7'')\<rparr>)]\<rparr>
     = Inr (5, 1)
   \<and> findConstantTermFromFile \<lparr>keys_k = Some (Integer 1), members =
       [(lit ''1'', Some \<lparr>entry_base = Some (Integer 10), entry_value = String (lit ''5'')\<rparr>),
        (lit ''2'', Some \<lparr>entry_base = Some (Integer 10), entry_value = String (lit ''7'')\<rparr>)]\<rparr>
     = Inr (5, 1)"
proof -
  let ?e5 = "Some \<lparr>entry_base = Some (Integer 10), entry_value = String (lit ''5'')\<rparr>"
  let ?e7 = "Some \<lparr>entry_base = Some (Integer 10), entry_value = String (lit ''7'')\<rparr>"
  let ?r = "\<lparr>keys_k = Some (Integer 1), members = [(lit ''2'', ?e7), (lit ''1'', ?e5)]\<rparr>"
  let ?r' = "\<lparr>keys_k = Some (Integer 1), members = [(lit ''1'', ?e5), (lit ''2'', ?e7)]\<rparr>"
  let ?pts = "[\<lparr>px = 2, py = 7\<rparr>, \<lparr>px = 1, py = 5\<rparr>]"
  have s: "points_loop_String (members ?r) [] = Inr ?pts"
    by (simp add: key_1 key_2 valueStr_of_def parse_5 parse_7)
  have f: "points_loop_File (members ?r) [] = Inr ?pts"
    by (simp add: key_1 key_2 parse_5 parse_7)
  have rs: "findConstantTermFromString ?r = Inr (5, 1)"
    using s by (simp add: findConstantTermFromString_def select_and_compute_def compute_single)
  have rf: "findConstantTermFromFile ?r = Inr (5, 1)"
    using f by (simp add: findConstantTermFromFile_def select_and_compute_def compute_single)
  show ?thesis
    using selection_order_independent [of ?r' ?r 1 ?pts "(5, 1)"] s f rs rf
    by simp
qed

text \<open>
  The claim as it is written fails where two points have the same \<open>x\<close> and only one of
  them is selected. The keys \<open>01\<close> and \<open>001\<close> both match the key pattern and both denote
  \<open>x = 1\<close>; neither is an array index, so \<open>Object.keys\<close> lists them in the order of the
  text. With \<open>k = 1\<close> the stable sort keeps whichever comes first, and the result follows
  the order of the members.
\<close>

theorem selection_order_counterexample:
  "mset (members \<lparr>keys_k = Some (Integer 1), members =
       [(lit ''001'', Some \<lparr>entry_base = Some (Integer 10), entry_value = String (lit ''7'')\<rparr>),
        (lit ''01'', Some \<lparr>entry_base = Some (Integer 10), entry_value = String (lit ''5'')\<rparr>)]\<rparr>)
     = mset (members \<lparr>keys_k = Some (Integer 1), members =
       [(lit ''01'', Some \<lparr>entry_base = Some (Integer 10), entry_value = String (lit ''5'')\<rparr>),
        (lit ''001'', Some \<lparr>entry_base = Some (Integer 10), entry_value = String (lit ''7'')\<rparr>)]\<rparr>)
   \<and> findConstantTermFromString \<lparr>keys_k = Some (Integer 1), members =
       [(lit ''01'', Some \<lparr>entry_base = Some (Integer 10), entry_value = String (lit ''5'')\<rparr>),
        (lit ''001'', Some \<lparr>entry_base = Some (Integer 10), entry_value = String (lit ''7'')\<rparr>)]\<rparr>
     = Inr (5, 1)
   \<and> findConstantTermFromString \<lparr>keys_k = Some (Integer 1), members =
       [(lit ''001'', Some \<lparr>entry_base = Some (Integer 10), entry_value = String (lit ''7'')\<rparr>),
        (lit ''01'', Some \<lparr>entry_base = Some (Integer 10), entry_value = String (lit ''5'')\<rparr>)]\<rparr>
     = Inr (7, 1)"
  by (simp add: findConstantTermFromString_def key_01 key_001 valueStr_of_def parse_5 parse_7
        select_and_compute_def compute_single)

text \<open>
  Claim C5, as the code has it. In \<open>findConstantTermFromString\<close> a point entry must be an
  object with a \<open>base\<close>, or the builder fails with \<open>InvalidPointEntry\<close>; its value is taken
  as it is when it is a string, and as the text \<open>String\<close> gives when it is a number or a
  boolean, and is then parsed in the base; any other value, a missing one too, fails
  with \<open>InvalidValueType\<close>. In \<open>findConstantTermFromFile\<close> the value must be a string: an
  entry that is not an object, has no \<open>base\<close>, or has a value that is not a string fails
  with \<open>InvalidPointEntry\<close>.
\<close>

theorem point_entry_requirements:
  "rawKey \<noteq> lit ''keys'' \<and> isPointKey rawKey \<longrightarrow>
     points_loop_String ((rawKey, None) # rest) pts = Inl InvalidPointEntry
   \<and> points_loop_String ((rawKey, Some \<lparr>entry_base = None, entry_value = v\<rparr>) # rest) pts
       = Inl InvalidPointEntry
   \<and> points_loop_String ((rawKey, Some \<lparr>entry_base = Some b, entry_value = String s\<rparr>) # rest) pts
       = (case parseBigIntFromString s b of
            Inl e \<Rightarrow> Inl e
          | Inr y \<Rightarrow> points_loop_String rest (pts @ [\<lparr>px = BigInt rawKey, py = y\<rparr>]))
   \<and> points_loop_String ((rawKey, Some \<lparr>entry_base = Some b, entry_value = Number s\<rparr>) # rest) pts
       = (case parseBigIntFromString s b of
            Inl e \<Rightarrow> Inl e
          | Inr y \<Rightarrow> points_loop_String rest (pts @ [\<lparr>px = BigInt rawKey, py = y\<rparr>]))
   \<and> points_loop_String ((rawKey, Some \<lparr>entry_base = Some b, entry_value = Boolean t\<rparr>) # rest) pts
       = (case parseBigIntFromString (if t then lit ''true'' else lit ''false'') b of
            Inl e \<Rightarrow> Inl e
          | Inr y \<Rightarrow> points_loop_String rest (pts @ [\<lparr>px = BigInt rawKey, py = y\<rparr>]))
   \<and> (v = Undefined \<or> v = Null \<or> v = Object \<longrightarrow>
        points_loop_String ((rawKey, Some \<lparr>entry_base = Some b, entry_value = v\<rparr>) # rest) pts
          = Inl InvalidValueType)
   \<and> points_loop_File ((rawKey, None) # rest) pts = Inl InvalidPointEntry
   \<and> points_loop_File ((rawKey, Some \<lparr>entry_base = None, entry_value = v\<rparr>) # rest) pts
       = Inl InvalidPointEntry
   \<and> points_loop_File ((rawKey, Some \<lparr>entry_base = Some b, entry_value = String s\<rparr>) # rest) pts
       = (case parseBigIntFromString s b of
            Inl e \<Rightarrow> Inl e
          | Inr y \<Rightarrow> points_loop_File rest (pts @ [\<lparr>px = BigInt rawKey, py = y\<rparr>]))
   \<and> ((\<forall>s. v \<noteq> String s) \<longrightarrow>
        points_loop_File ((rawKey, Some \<lparr>entry_base = bo, entry_value = v\<rparr>) # rest) pts
          = Inl InvalidPointEntry)"
proof (intro impI conjI)
  assume a: "rawKey \<noteq> lit ''keys'' \<and> isPointKey rawKey"
  show "points_loop_String ((rawKey, None) # rest) pts = Inl InvalidPointEntry"
    using a by simp
  show "points_loop_String ((rawKey, Some \<lparr>entry_base = None, entry_value = v\<rparr>) # rest) pts
       = Inl InvalidPointEntry"
    using a by simp
  show "points_loop_String ((rawKey, Some \<lparr>entry_base = Some b, entry_value = String s\<rparr>) # rest) pts
       = (case parseBigIntFromString s b of
            Inl e \<Rightarrow> Inl e
          | Inr y \<Rightarrow> points_loop_String rest (pts @ [\<lparr>px = BigInt rawKey, py = y\<rparr>]))"
    using a by (simp add: valueStr_of_def)
  show "points_loop_String ((rawKey, Some \<lparr>entry_base = Some b, entry_value = Number s\<rparr>) # rest) pts
       = (case parseBigIntFromString s b of
            Inl e \<Rightarrow> Inl e
          | Inr y \<Rightarrow> points_loop_String rest (pts @ [\<lparr>px = BigInt rawKey, py = y\<rparr>]))"
    using a by (simp add: valueStr_of_def)
  show "points_loop_String ((rawKey, Some \<lparr>entry_base = Some b, entry_value = Boolean t\<rparr>) # rest) pts
       = (case parseBigIntFromString (if t then lit ''true'' else lit ''false'') b of
            Inl e \<Rightarrow> Inl e
          | Inr y \<Rightarrow> points_loop_String rest (pts @ [\<lparr>px = BigInt rawKey, py = y\<rparr>]))"
    using a by (simp add: valueStr_of_def)
  show "points_loop_File ((rawKey, None) # rest) pts = Inl InvalidPointEntry"
    using a by simp
  show "points_loop_File ((rawKey, Some \<lparr>entry_base = None, entry_value = v\<rparr>) # rest) pts
       = Inl InvalidPointEntry"
    using a by (simp split: jsvalue.splits)
  show "points_loop_File ((rawKey, Some \<lparr>entry_base = Some b, entry_value = String s\<rparr>) # rest) pts
       = (case parseBigIntFromString s b of
            Inl e \<Rightarrow> Inl e
          | Inr y \<Rightarrow> points_loop_File rest (pts @ [\<lparr>px = BigInt rawKey, py = y\<rparr>]))"
    using a by simp
  {
    assume "v = Undefined \<or> v = Null \<or> v = Object"
    then show "points_loop_String ((rawKey, Some \<lparr>entry_base = Some b, entry_value = v\<rparr>) # rest) pts
          = Inl InvalidValueType"
      using a by (auto simp: valueStr_of_def)
  }
  {
    assume "\<forall>s. v \<noteq> String s"
    then show "points_loop_File ((rawKey, Some \<lparr>entry_base = bo, entry_value = v\<rparr>) # rest) pts
          = Inl InvalidPointEntry"
      using a by (cases v) (simp_all split: option.splits)
  }
qed

theorem point_entry_requirements_witness:
  "points_loop_String [(lit ''1'', Some \<lparr>entry_base = Some (Integer 10), entry_value = Number (lit ''5'')\<rparr>)] []
     = Inr [\<lparr>px = 1, py = 5\<rparr>]
   \<and> points_loop_String [(lit ''1'', Some \<lparr>entry_base = Some (Integer 10), entry_value = Null\<rparr>)] []
     = Inl InvalidValueType
   \<and> points_loop_String [(lit ''1'', Some \<lparr>entry_base = None, entry_value = String (lit ''5'')\<rparr>)] []
     = Inl InvalidPointEntry
   \<and> points_loop_File [(lit ''1'', Some \<lparr>entry_base = Some (Integer 10), entry_value = String (lit ''5'')\<rparr>)] []
     = Inr [\<lparr>px = 1, py = 5\<rparr>]
   \<and> points_loop_File [(lit ''1'', Some \<lparr>entry_base = Some (Integer 10), entry_value = Null\<rparr>)] []
     = Inl InvalidPointEntry"
  using point_entry_requirements [of "lit ''1''" "[]" "[]" Null "Integer 10" "lit ''5''" True "Some (Integer 10)"]
    point_entry_requirements [of "lit ''1''" "[]" "[]" "String (lit ''5'')" "Integer 10" "lit ''5''" True None]
  by (simp add: key_1 parse_5)

text \<open>
  The claim as it is written fails on \<open>findConstantTermFromFile\<close>: an entry whose value is
  the number 5 is refused with \<open>InvalidPointEntry\<close>, where \<open>findConstantTermFromString\<close>
  takes it.
\<close>

theorem point_entry_counterexample:
  "findConstantTermFromFile \<lparr>keys_k = Some (Integer 1), members =
       [(lit ''1'', Some \<lparr>entry_base = Some (Integer 10), entry_value = Number (lit ''5'')\<rparr>)]\<rparr>
     = Inl InvalidPointEntry
   \<and> findConstantTermFromString \<lparr>keys_k = Some (Integer 1), members =
       [(lit ''1'', Some \<lparr>entry_base = Some (Integer 10), entry_value = Number (lit ''5'')\<rparr>)]\<rparr>
     = Inr (5, 1)"
  by (simp add: findConstantTermFromFile_def findConstantTermFromString_def key_1 valueStr_of_def
        parse_5 select_and_compute_def compute_single)

section \<open>Properties of the output\<close>

lemma decimal_digits_props:
  "decimal_digits n \<noteq> [] \<and> list_all (valid_digit 10) (decimal_digits n)
   \<and> foldl (\<lambda>r c. r * 10 + digit_value c) 0 (decimal_digits n) = int n"
proof (induction n rule: decimal_digits.induct)
  case (1 n)
  show ?case
  proof (cases "n < 10")
    case True
    then have "decimal_digits n = [48 + n]"
      by (subst decimal_digits.simps) simp
    with True show ?thesis
      by (simp add: valid_digit_eval digit_value_eval)
  next
    case False
    then have e: "decimal_digits n = decimal_digits (n div 10) @ [48 + n mod 10]"
      by (subst decimal_digits.simps) simp
    have m: "n mod 10 < 10" by simp
    have v: "valid_digit 10 (48 + n mod 10)" "digit_value (48 + n mod 10) = int (n mod 10)"
      using m by (simp_all add: valid_digit_eval digit_value_eval)
    have "int (n div 10) * 10 + int (n mod 10) = int n"
      by (metis mult.commute of_nat_add of_nat_mult of_nat_numeral mult_div_mod_eq)
    with "1.IH" [OF False] v show ?thesis
      unfolding e by simp
  qed
qed

lemma parse_toString: "parseBigIntFromString (toString n) (Integer 10) = Inr n"
proof (cases "n < 0")
  case True
  let ?ds = "decimal_digits (nat (- n))"
  have "parseBigIntFromString (0x2D # ?ds) (Integer 10)
      = Inr (- foldl (\<lambda>r c. r * 10 + digit_value c) 0 ?ds)"
    using decimal_digits_props [of "nat (- n)"] by (intro parse_plain(3)) simp_all
  with True show ?thesis
    using decimal_digits_props [of "nat (- n)"] by (simp add: toString_def)
next
  case False
  let ?ds = "decimal_digits (nat n)"
  have "parseBigIntFromString ?ds (Integer 10)
      = Inr (foldl (\<lambda>r c. r * 10 + digit_value c) 0 ?ds)"
    using decimal_digits_props [of "nat n"] by (intro parse_plain(1)) simp_all
  with False show ?thesis
    using decimal_digits_props [of "nat n"] by (simp add: toString_def)
qed

lemma compute_reduced:
  assumes "computeConstantTermFromSelected sel k = Inr (n, d)"
  shows "0 < d \<and> coprime n d"
proof -
  from assms obtain tn td where "td \<noteq> 0" "reduceFraction tn td = Inr (n, d)"
    by (auto simp: computeConstantTermFromSelected_def
          split: number.splits if_splits sum.splits prod.splits)
  then show ?thesis
    using reduceFraction_props [of td tn] by (metis Inr_inject prod.inject)
qed

lemma select_reduced:
  assumes "select_and_compute pts k = Inr (n, d)"
  shows "0 < d \<and> coprime n d"
  using assms compute_reduced
  by (auto simp: select_and_compute_def Let_def split: if_splits)

lemma find_reduced:
  "findConstantTermFromString r = Inr (n, d) \<Longrightarrow> 0 < d \<and> coprime n d"
  "findConstantTermFromFile r = Inr (n, d) \<Longrightarrow> 0 < d \<and> coprime n d"
  using select_reduced
  by (auto simp: findConstantTermFromString_def findConstantTermFromFile_def
        split: option.splits number.splits if_splits sum.splits)

text \<open>
  Claim C9. For a record that succeeds with the fraction \<open>(num, den)\<close>, which has
  \<open>den > 0\<close> and is in lowest terms, \<open>processJsonStringOrFileContent\<close> returns the decimal
  text of \<open>num\<close> when \<open>den = 1\<close>, and otherwise the decimal text of \<open>num\<close>, a \<open>/\<close>, and the
  decimal text of \<open>den\<close>; it returns a string in no other case. The batch driver of the
  file variant logs the same text after the file name and a fixed label. The decimal text
  of an integer is the base-10 literal that parses back to it.
\<close>

theorem output_format:
  "(processJsonStringOrFileContent r = Inr out \<longleftrightarrow>
      (\<exists>num den. findConstantTermFromString r = Inr (num, den)
         \<and> out = (if den = 1 then toString num else toString num @ lit ''/'' @ toString den)))
   \<and> (main_log fname r = Inr line \<longleftrightarrow>
      (\<exists>num den. findConstantTermFromFile r = Inr (num, den)
         \<and> line = fname @ lit '' => constant term (c) = ''
              @ (if den = 1 then toString num else toString num @ lit ''/'' @ toString den)))
   \<and> (findConstantTermFromString r = Inr (num, den) \<longrightarrow> 0 < den \<and> coprime num den)
   \<and> (findConstantTermFromFile r = Inr (num, den) \<longrightarrow> 0 < den \<and> coprime num den)
   \<and> parseBigIntFromString (toString n) (Integer 10) = Inr n"
proof (intro conjI impI)
  show "processJsonStringOrFileContent r = Inr out \<longleftrightarrow>
      (\<exists>num den. findConstantTermFromString r = Inr (num, den)
         \<and> out = (if den = 1 then toString num else toString num @ lit ''/'' @ toString den))"
  proof (cases "findConstantTermFromString r")
    case (Inl e)
    then show ?thesis by (simp add: processJsonStringOrFileContent_def)
  next
    case (Inr p)
    obtain a b where p: "p = (a, b)" by (cases p)
    show ?thesis
      unfolding processJsonStringOrFileContent_def Inr p
      by (auto split del: if_split)
  qed
  show "main_log fname r = Inr line \<longleftrightarrow>
      (\<exists>num den. findConstantTermFromFile r = Inr (num, den)
         \<and> line = fname @ lit '' => constant term (c) = ''
              @ (if den = 1 then toString num else toString num @ lit ''/'' @ toString den))"
  proof (cases "findConstantTermFromFile r")
    case (Inl e)
    then show ?thesis by (simp add: main_log_def)
  next
    case (Inr p)
    obtain a b where p: "p = (a, b)" by (cases p)
    show ?thesis
      unfolding main_log_def Inr p
      by (cases "b = 1") auto
  qed
  show "parseBigIntFromString (toString n) (Integer 10) = Inr n"
    by (rule parse_toString)
  {
    assume "findConstantTermFromString r = Inr (num, den)"
    then have c: "0 < den \<and> coprime num den" by (rule find_reduced)
    from c show "0 < den" by simp
    from c show "coprime num den" by simp
  }
  {
    assume "findConstantTermFromFile r = Inr (num, den)"
    then have c: "0 < den \<and> coprime num den" by (rule find_reduced)
    from c show "0 < den" by simp
    from c show "coprime num den" by simp
  }
qed

theorem output_format_witness:
  "processJsonStringOrFileContent \<lparr>keys_k = Some (Integer 1), members =
       [(lit ''1'', Some \<lparr>entry_base = Some (Integer 10), entry_value = String (lit ''5'')\<rparr>)]\<rparr>
     = Inr (lit ''5'')
   \<and> main_log (lit ''a.json'') \<lparr>keys_k = Some (Integer 1), members =
       [(lit ''1'', Some \<lparr>entry_base = Some (Integer 10), entry_value = String (lit ''5'')\<rparr>)]\<rparr>
     = Inr (lit ''a.json => constant term (c) = 5'')
   \<and> parseBigIntFromString (toString (- 1203)) (Integer 10) = Inr (- 1203)"
proof -
  let ?r = "\<lparr>keys_k = Some (Integer 1), members =
       [(lit ''1'', Some \<lparr>entry_base = Some (Integer 10), entry_value = String (lit ''5'')\<rparr>)]\<rparr>"
  have s: "findConstantTermFromString ?r = Inr (5, 1)"
    by (simp add: findConstantTermFromString_def key_1 valueStr_of_def parse_5
          select_and_compute_def compute_single)
  have f: "findConstantTermFromFile ?r = Inr (5, 1)"
    by (simp add: findConstantTermFromFile_def key_1 parse_5
          select_and_compute_def compute_single)
  have t: "toString 5 = lit ''5''"
    by (simp add: toString_def lit_simps)
  show ?thesis
    using output_format [of ?r "lit ''5''" "lit ''a.json''"
        "lit ''a.json => constant term (c) = 5''" 5 1 "- 1203"] s f t
    by (simp add: lit_simps)
qed

end
